theory Spec2Isabelle
  imports Main "HOL-Library.Word"
begin

section \<open>The RIFF file reader: data model\<close>

text \<open>
  The embedding follows \<^verbatim>\<open>riff_file_reader.c\<close> on an LP64 little-endian host:
  \<^verbatim>\<open>char\<close> is a byte, \<^verbatim>\<open>uint32_t\<close> and \<^verbatim>\<open>int\<close> have 32 bits, \<^verbatim>\<open>size_t\<close> has 64.
  A value of type \<^verbatim>\<open>int\<close> is kept as the 32-bit word of its two's complement
  representation; \<open>scast\<close> is then the conversion \<^verbatim>\<open>(size_t)len\<close> (sign extension) and
  \<open>ucast\<close> the conversion of a \<^verbatim>\<open>uint32_t\<close> to \<^verbatim>\<open>size_t\<close>.
\<close>

type_synonym byte = "8 word"
type_synonym uint32_t = "32 word"
type_synonym int_t = "32 word"
type_synonym size_t = "64 word"

text \<open>The bytes of a C string literal, without the terminating NUL.\<close>

definition cstr :: "string \<Rightarrow> byte list" where
  "cstr s = map of_char s"

definition RIFF_FILE_TYPE_CHUNK_MAGIC :: "byte list" where
  "RIFF_FILE_TYPE_CHUNK_MAGIC = cstr ''RIFF''"

definition RIFF_FILE_NESTED_LIST_MAX_LEVELS :: nat where
  "RIFF_FILE_NESTED_LIST_MAX_LEVELS = 10"

text \<open>
  \<^verbatim>\<open>struct riff_file_s\<close>. The field \<^verbatim>\<open>fd\<close> is never written nor read by the code and is
  left out. \<open>vaddr\<close> is the address \<^verbatim>\<open>mmap\<close> returned; \<open>mem\<close> is the content of the
  mapping, \<open>mem f i\<close> being the byte at address \<open>vaddr f + i\<close>. The mapping is read-only
  and covers \<open>size_f f\<close> bytes.
\<close>

record riff_file_s =
  size_f :: size_t
  vaddr :: nat
  mem :: "nat \<Rightarrow> byte"

text \<open>
  What the reader makes observable besides its return values: every call of a
  registered callback with its arguments, the underflow diagnostic of
  \<^verbatim>\<open>sub_all_lists\<close>, and the lines the test program prints for a chunk and for the end
  of the file. The callbacks receive pointers into the mapping; a pointer into the
  mapping is modelled by its distance from \<open>vaddr\<close>.

  \<^item> \<open>LIST_START level list size type\<close>: \<^verbatim>\<open>list_start_cb(iter_h, level, list->id, list->size, list->type)\<close>,
    where \<open>list\<close> is the pointer \<^verbatim>\<open>list->id\<close> and \<open>type\<close> the four bytes at \<^verbatim>\<open>list->type\<close>;
  \<^item> \<open>LIST_END level\<close>: \<^verbatim>\<open>list_end_cb(iter_h, level)\<close>;
  \<^item> \<open>UNDERFLOW i left len\<close>: the \<^verbatim>\<open>printf\<close> of \<^verbatim>\<open>sub_all_lists\<close> for depth \<open>i\<close>;
  \<^item> \<open>CHUNK level chunk id size\<close> and \<open>EOF\<close>: the lines of the test program.
\<close>

datatype event =
    LIST_START nat nat uint32_t "byte list"
  | LIST_END nat
  | UNDERFLOW nat size_t int_t
  | CHUNK nat nat "byte list" uint32_t
  | EOF

text \<open>
  \<^verbatim>\<open>struct riff_file_iterator_s\<close>. \<open>addr\<close> is the cursor \<^verbatim>\<open>it->addr\<close> as a distance
  from \<open>vaddr\<close>. \<open>list_level\<close> is an \<^verbatim>\<open>int\<close> in the source that starts at 0 and is
  decremented only under the guard \<^verbatim>\<open>list_level > 0\<close>, so it is a natural number here.
  \<open>list_size\<close> is the array of \<^verbatim>\<open>RIFF_FILE_NESTED_LIST_MAX_LEVELS\<close> budgets. A callback
  field says whether a callback is registered (not \<^verbatim>\<open>NULL\<close>); a registered callback
  is taken to record its call in \<open>out\<close> and to leave the iterator alone.
  \<open>out\<close> is the sequence of observable events so far.
\<close>

record riff_file_iterator_s =
  file_p :: riff_file_s
  addr :: nat
  list_level :: nat
  list_size :: "size_t list"
  list_start_cb :: bool
  list_end_cb :: bool
  out :: "event list"

text \<open>
  The ways a call can end the process: the failed \<^verbatim>\<open>assert\<close> on the nesting level
  (the source is compiled with assertions, there is no \<^verbatim>\<open>NDEBUG\<close> in it), and a read
  outside the mapped bytes, which is undefined behaviour in the source.
\<close>

datatype error = ASSERT_LIST_LEVEL | READ_OUTSIDE_MAPPING

section \<open>Reading the mapping\<close>

text \<open>\<open>peek f p n\<close>: the \<open>n\<close> bytes at distance \<open>p\<close>, when they all lie in the mapping.\<close>

definition peek :: "riff_file_s \<Rightarrow> nat \<Rightarrow> nat \<Rightarrow> byte list option" where
  "peek f p n = (if p + n \<le> unat (size_f f) then Some (map (mem f) [p..<p + n]) else None)"

text \<open>A \<^verbatim>\<open>uint32_t\<close> read from four bytes on a little-endian host.\<close>

definition rd_u32 :: "byte list \<Rightarrow> uint32_t" where
  "rd_u32 bs = word_of_nat (unat (bs ! 0) + 256 * unat (bs ! 1)
                 + 65536 * unat (bs ! 2) + 16777216 * unat (bs ! 3))"

section \<open>The iterator\<close>

text \<open>
  \<^verbatim>\<open>riff_file_data_chunk_iterator_new\<close>. Only \<^verbatim>\<open>list_size[0]\<close> is initialised; \<open>junk\<close> is
  what \<^verbatim>\<open>malloc\<close> left in the other nine entries. A \<^verbatim>\<open>NULL\<close> handle gives \<^verbatim>\<open>NULL\<close>.
\<close>

definition riff_file_data_chunk_iterator_new ::
    "riff_file_s option \<Rightarrow> bool \<Rightarrow> bool \<Rightarrow> size_t list \<Rightarrow> riff_file_iterator_s option" where
  "riff_file_data_chunk_iterator_new file_h start_cb end_cb junk =
     (case file_h of
        None \<Rightarrow> None
      | Some f \<Rightarrow> Some \<lparr> file_p = f, addr = 12, list_level = 0,
                         list_size = (size_f f - 12) # junk,
                         list_start_cb = start_cb, list_end_cb = end_cb, out = [] \<rparr>)"

definition riff_file_data_chunk_iterator_get_list_level :: "riff_file_iterator_s \<Rightarrow> nat" where
  "riff_file_data_chunk_iterator_get_list_level it = list_level it"

text \<open>
  \<^verbatim>\<open>sub_all_lists\<close>: \<open>sub_list len i\<close> is the body of the loop for index \<open>i\<close>, and the loop
  runs \<open>i\<close> from 0 to \<open>list_level\<close> inclusive. The comparison and the subtraction are
  done in \<^verbatim>\<open>size_t\<close>, on \<^verbatim>\<open>(size_t)len\<close>.
\<close>

definition sub_list :: "int_t \<Rightarrow> nat \<Rightarrow> riff_file_iterator_s \<Rightarrow> riff_file_iterator_s" where
  "sub_list len i it =
     (if scast len \<le> list_size it ! i
      then it\<lparr>list_size := (list_size it)[i := list_size it ! i - scast len]\<rparr>
      else it\<lparr>list_size := (list_size it)[i := 0],
              out := out it @ [UNDERFLOW i (list_size it ! i) len]\<rparr>)"

definition sub_all_lists :: "riff_file_iterator_s \<Rightarrow> int_t \<Rightarrow> riff_file_iterator_s" where
  "sub_all_lists it len = fold (sub_list len) [0..<Suc (list_level it)] it"

text \<open>The \<^verbatim>\<open>while\<close> loop at the head of \<^verbatim>\<open>riff_file_data_chunk_iterator_next\<close>.\<close>

function close_levels :: "riff_file_iterator_s \<Rightarrow> riff_file_iterator_s" where
  "close_levels it =
     (if list_level it > 0 \<and> list_size it ! list_level it = 0
      then close_levels
             (it\<lparr>out := (if list_end_cb it then out it @ [LIST_END (list_level it)] else out it),
                 list_level := list_level it - 1\<rparr>)
      else it)"
  by pat_completeness auto
termination
  by (relation "measure list_level") auto

declare close_levels.simps [simp del]

text \<open>
  The \<^verbatim>\<open>LIST\<close> branch up to the store of the new budget: skip id and size, charge 8,
  enter the new level under the assertion, store \<^verbatim>\<open>list->size\<close> as its budget.
\<close>

definition list_enter :: "riff_file_iterator_s \<Rightarrow> error + riff_file_iterator_s" where
  "list_enter it =
     (let it1 = sub_all_lists (it\<lparr>addr := addr it + 8\<rparr>) 8;
          it2 = it1\<lparr>list_level := list_level it1 + 1\<rparr>
      in if \<not> list_level it2 < RIFF_FILE_NESTED_LIST_MAX_LEVELS then Inl ASSERT_LIST_LEVEL
         else case peek (file_p it) (addr it + 4) 4 of
                None \<Rightarrow> Inl READ_OUTSIDE_MAPPING
              | Some sz \<Rightarrow>
                  Inr (it2\<lparr>list_size := (list_size it2)[list_level it2 := ucast (rd_u32 sz)]\<rparr>))"

text \<open>
  The rest of the \<^verbatim>\<open>LIST\<close> branch, up to the recursive call: a \<^verbatim>\<open>movi\<close> list is skipped
  whole, of any other list the type tag is skipped; then the start callback is called.
  The pointer \<^verbatim>\<open>it->addr\<close> advances by the \<^verbatim>\<open>uint32_t\<close> size, while \<^verbatim>\<open>sub_all_lists\<close>
  receives it through its parameter \<^verbatim>\<open>int len\<close>.
\<close>

definition list_chunk :: "riff_file_iterator_s \<Rightarrow> error + riff_file_iterator_s" where
  "list_chunk it =
     (case list_enter it of
        Inl e \<Rightarrow> Inl e
      | Inr it3 \<Rightarrow>
          (case peek (file_p it) (addr it + 4) 8 of
             None \<Rightarrow> Inl READ_OUTSIDE_MAPPING
           | Some hdr \<Rightarrow>
               let sz = rd_u32 (take 4 hdr); ty = drop 4 hdr;
                   it4 = (if ty = cstr ''movi''
                          then sub_all_lists (it3\<lparr>addr := addr it3 + unat sz\<rparr>) sz
                          else sub_all_lists (it3\<lparr>addr := addr it3 + 4\<rparr>) 4)
               in Inr (if list_start_cb it4
                       then it4\<lparr>out := out it4 @ [LIST_START (list_level it4) (addr it) sz ty]\<rparr>
                       else it4)))"

text \<open>The \<^verbatim>\<open>INFO\<close> branch up to the recursive call.\<close>

definition info_marker :: "riff_file_iterator_s \<Rightarrow> riff_file_iterator_s" where
  "info_marker it = sub_all_lists (it\<lparr>addr := addr it + 4\<rparr>) 4"

text \<open>The last branch: a data sub-chunk is skipped, header and payload.\<close>

definition data_subchunk :: "riff_file_iterator_s \<Rightarrow> error + riff_file_iterator_s" where
  "data_subchunk it =
     (let it1 = sub_all_lists (it\<lparr>addr := addr it + 8\<rparr>) 8
      in case peek (file_p it) (addr it + 4) 4 of
           None \<Rightarrow> Inl READ_OUTSIDE_MAPPING
         | Some sz \<Rightarrow>
             Inr (sub_all_lists (it1\<lparr>addr := addr it1 + unat (rd_u32 sz)\<rparr>) (rd_u32 sz)))"

lemma sub_list_fields [simp]:
  "file_p (sub_list len i it) = file_p it"
  "addr (sub_list len i it) = addr it"
  "list_level (sub_list len i it) = list_level it"
  "list_start_cb (sub_list len i it) = list_start_cb it"
  "list_end_cb (sub_list len i it) = list_end_cb it"
  "length (list_size (sub_list len i it)) = length (list_size it)"
  by (simp_all add: sub_list_def)

lemma fold_sub_list_fields [simp]:
  "file_p (fold (sub_list len) is it) = file_p it"
  "addr (fold (sub_list len) is it) = addr it"
  "list_level (fold (sub_list len) is it) = list_level it"
  "list_start_cb (fold (sub_list len) is it) = list_start_cb it"
  "list_end_cb (fold (sub_list len) is it) = list_end_cb it"
  "length (list_size (fold (sub_list len) is it)) = length (list_size it)"
  by (induction "is" arbitrary: it; simp)+

lemma sub_all_lists_fields [simp]:
  "file_p (sub_all_lists it len) = file_p it"
  "addr (sub_all_lists it len) = addr it"
  "list_level (sub_all_lists it len) = list_level it"
  "list_start_cb (sub_all_lists it len) = list_start_cb it"
  "list_end_cb (sub_all_lists it len) = list_end_cb it"
  "length (list_size (sub_all_lists it len)) = length (list_size it)"
  by (simp_all add: sub_all_lists_def)

lemma close_levels_fields [simp]:
  "file_p (close_levels it) = file_p it"
  "addr (close_levels it) = addr it"
  "list_size (close_levels it) = list_size it"
  "list_start_cb (close_levels it) = list_start_cb it"
  "list_end_cb (close_levels it) = list_end_cb it"
  by (induction it rule: close_levels.induct; subst close_levels.simps; simp)+

lemma list_enter_fields:
  assumes "list_enter it = Inr it'"
  shows "file_p it' = file_p it" and "addr it' = addr it + 8"
  using assms by (auto simp: list_enter_def Let_def split: if_splits option.splits)

lemma list_chunk_fields:
  assumes "list_chunk it = Inr it'"
  shows "file_p it' = file_p it" and "addr it + 8 \<le> addr it'"
  using assms
  by (auto simp: list_chunk_def Let_def peek_def dest: list_enter_fields
           split: sum.splits option.splits if_splits)

lemma data_subchunk_fields:
  assumes "data_subchunk it = Inr it'"
  shows "file_p it' = file_p it" and "addr it + 8 \<le> addr it'" and "addr it + 8 \<le> unat (size_f (file_p it))"
  using assms by (auto simp: data_subchunk_def Let_def peek_def split: option.splits if_splits)

text \<open>
  \<^verbatim>\<open>riff_file_data_chunk_iterator_next\<close>. The result is the pointer to the sub-chunk, or
  \<open>None\<close> for \<^verbatim>\<open>NULL\<close>, with the iterator as the call leaves it. The recursion of the
  source ends: each recursive call is made after a successful read of the tag at the
  cursor, with the cursor moved forward.
\<close>

function riff_file_data_chunk_iterator_next ::
    "riff_file_iterator_s \<Rightarrow> error + (nat option \<times> riff_file_iterator_s)" where
  "riff_file_data_chunk_iterator_next it0 =
     (let it = close_levels it0
      in if list_level it = 0 \<and> list_size it ! 0 = 0 then Inr (None, it)
         else case peek (file_p it) (addr it) 4 of
                None \<Rightarrow> Inl READ_OUTSIDE_MAPPING
              | Some tag \<Rightarrow>
                  if tag = cstr ''LIST''
                  then (case list_chunk it of
                          Inl e \<Rightarrow> Inl e
                        | Inr it' \<Rightarrow> riff_file_data_chunk_iterator_next it')
                  else if tag = cstr ''INFO''
                  then riff_file_data_chunk_iterator_next (info_marker it)
                  else (case data_subchunk it of
                          Inl e \<Rightarrow> Inl e
                        | Inr it' \<Rightarrow> Inr (Some (addr it), it')))"
  by pat_completeness auto
termination
proof (relation "measure (\<lambda>it. unat (size_f (file_p it)) - addr it)")
  show "wf (measure (\<lambda>it. unat (size_f (file_p it)) - addr it))" by simp
next
  fix it0 it tag it'
  assume "it = close_levels it0" and "peek (file_p it) (addr it) 4 = Some tag"
     and "list_chunk it = Inr it'"
  then show "(it', it0) \<in> measure (\<lambda>it. unat (size_f (file_p it)) - addr it)"
    using list_chunk_fields [of it it']
    by (auto simp: peek_def split: if_splits)
next
  fix it0 it tag
  assume "it = close_levels it0" and "peek (file_p it) (addr it) 4 = Some tag"
  then show "(info_marker it, it0) \<in> measure (\<lambda>it. unat (size_f (file_p it)) - addr it)"
    by (auto simp: peek_def info_marker_def split: if_splits)
qed

declare riff_file_data_chunk_iterator_next.simps [simp del]

lemma next_induct [case_names Eos Fault List_fault List Info Leaf_fault Leaf]:
  assumes Eos: "\<And>it0 it. it = close_levels it0 \<Longrightarrow> list_level it = 0 \<and> list_size it ! 0 = 0 \<Longrightarrow>
            riff_file_data_chunk_iterator_next it0 = Inr (None, it) \<Longrightarrow> P it0"
    and Fault: "\<And>it0 it. it = close_levels it0 \<Longrightarrow> \<not> (list_level it = 0 \<and> list_size it ! 0 = 0) \<Longrightarrow>
            peek (file_p it) (addr it) 4 = None \<Longrightarrow>
            riff_file_data_chunk_iterator_next it0 = Inl READ_OUTSIDE_MAPPING \<Longrightarrow> P it0"
    and List_fault: "\<And>it0 it e. it = close_levels it0 \<Longrightarrow> \<not> (list_level it = 0 \<and> list_size it ! 0 = 0) \<Longrightarrow>
            peek (file_p it) (addr it) 4 = Some (cstr ''LIST'') \<Longrightarrow> list_chunk it = Inl e \<Longrightarrow>
            riff_file_data_chunk_iterator_next it0 = Inl e \<Longrightarrow> P it0"
    and List: "\<And>it0 it it'. it = close_levels it0 \<Longrightarrow> \<not> (list_level it = 0 \<and> list_size it ! 0 = 0) \<Longrightarrow>
            peek (file_p it) (addr it) 4 = Some (cstr ''LIST'') \<Longrightarrow> list_chunk it = Inr it' \<Longrightarrow>
            riff_file_data_chunk_iterator_next it0 = riff_file_data_chunk_iterator_next it' \<Longrightarrow>
            P it' \<Longrightarrow> P it0"
    and Info: "\<And>it0 it. it = close_levels it0 \<Longrightarrow> \<not> (list_level it = 0 \<and> list_size it ! 0 = 0) \<Longrightarrow>
            peek (file_p it) (addr it) 4 = Some (cstr ''INFO'') \<Longrightarrow>
            riff_file_data_chunk_iterator_next it0 = riff_file_data_chunk_iterator_next (info_marker it) \<Longrightarrow>
            P (info_marker it) \<Longrightarrow> P it0"
    and Leaf_fault: "\<And>it0 it tag e. it = close_levels it0 \<Longrightarrow> \<not> (list_level it = 0 \<and> list_size it ! 0 = 0) \<Longrightarrow>
            peek (file_p it) (addr it) 4 = Some tag \<Longrightarrow> tag \<noteq> cstr ''LIST'' \<Longrightarrow> tag \<noteq> cstr ''INFO'' \<Longrightarrow>
            data_subchunk it = Inl e \<Longrightarrow>
            riff_file_data_chunk_iterator_next it0 = Inl e \<Longrightarrow> P it0"
    and Leaf: "\<And>it0 it tag it'. it = close_levels it0 \<Longrightarrow> \<not> (list_level it = 0 \<and> list_size it ! 0 = 0) \<Longrightarrow>
            peek (file_p it) (addr it) 4 = Some tag \<Longrightarrow> tag \<noteq> cstr ''LIST'' \<Longrightarrow> tag \<noteq> cstr ''INFO'' \<Longrightarrow>
            data_subchunk it = Inr it' \<Longrightarrow>
            riff_file_data_chunk_iterator_next it0 = Inr (Some (addr it), it') \<Longrightarrow> P it0"
  shows "P it0"
proof (induction it0 rule: riff_file_data_chunk_iterator_next.induct)
  case (1 it0)
  define it where "it = close_levels it0"
  note unf = riff_file_data_chunk_iterator_next.simps [of it0, folded it_def]
  show ?case
  proof (cases "list_level it = 0 \<and> list_size it ! 0 = 0")
    case True
    then show ?thesis using Eos [OF it_def] unf by (simp add: Let_def)
  next
    case ne: False
    show ?thesis
    proof (cases "peek (file_p it) (addr it) 4")
      case None
      then show ?thesis using Fault [OF it_def ne] unf ne by (simp add: Let_def)
    next
      case (Some tag)
      consider (l) "tag = cstr ''LIST''" | (i) "tag \<noteq> cstr ''LIST''" "tag = cstr ''INFO''"
        | (d) "tag \<noteq> cstr ''LIST''" "tag \<noteq> cstr ''INFO''" by blast
      then show ?thesis
      proof cases
        case l
        show ?thesis
        proof (cases "list_chunk it")
          case (Inl e)
          then show ?thesis using List_fault [OF it_def ne, of e] unf ne Some l by (simp add: Let_def)
        next
          case (Inr it')
          have "P it'" using "1.IH"(1) [OF it_def ne Some l Inr] .
          then show ?thesis using List [OF it_def ne, of it'] unf ne Some l Inr by (simp add: Let_def)
        qed
      next
        case i
        have "P (info_marker it)" using "1.IH"(2) [OF it_def ne Some i] .
        then show ?thesis using Info [OF it_def ne] unf ne Some i by (simp add: Let_def)
      next
        case d
        show ?thesis
        proof (cases "data_subchunk it")
          case (Inl e)
          then show ?thesis using Leaf_fault [OF it_def ne Some d, of e] unf ne Some d by (simp add: Let_def)
        next
          case (Inr it')
          then show ?thesis using Leaf [OF it_def ne Some d, of it'] unf ne Some d by (simp add: Let_def)
        qed
      qed
    qed
  qed
qed

lemma next_result_Some:
  "riff_file_data_chunk_iterator_next it0 = Inr (Some c, it') \<Longrightarrow>
     file_p it' = file_p it0 \<and> addr it0 \<le> c \<and> c + 8 \<le> addr it'
     \<and> c + 8 \<le> unat (size_f (file_p it0))"
proof (induction it0 rule: next_induct)
  case (List it0 it it1)
  then show ?case using list_chunk_fields [of it it1] by auto
next
  case (Info it0 it)
  then show ?case by (auto simp: info_marker_def)
next
  case (Leaf it0 it tag it1)
  then show ?case using data_subchunk_fields [of it it1] by auto
qed auto

text \<open>
  The loop of the test program: it calls \<^verbatim>\<open>riff_file_data_chunk_iterator_next\<close> until
  the result is \<^verbatim>\<open>NULL\<close>, printing a line for each chunk (with the level the iterator
  reports after the call, the pointer, and the id and size read through it) and one
  for the end. The dump of the first payload bytes is left out.
\<close>

definition subchunk_id :: "riff_file_s \<Rightarrow> nat \<Rightarrow> byte list" where
  "subchunk_id f c = map (mem f) [c..<c + 4]"

definition subchunk_size :: "riff_file_s \<Rightarrow> nat \<Rightarrow> uint32_t" where
  "subchunk_size f c = rd_u32 (map (mem f) [c + 4..<c + 8])"

function main_loop :: "riff_file_iterator_s \<Rightarrow> error + riff_file_iterator_s" where
  "main_loop it =
     (case riff_file_data_chunk_iterator_next it of
        Inl e \<Rightarrow> Inl e
      | Inr (None, it') \<Rightarrow> Inr (it'\<lparr>out := out it' @ [EOF]\<rparr>)
      | Inr (Some c, it') \<Rightarrow>
          main_loop (it'\<lparr>out := out it' @
             [CHUNK (riff_file_data_chunk_iterator_get_list_level it') c
                    (subchunk_id (file_p it') c) (subchunk_size (file_p it') c)]\<rparr>))"
  by pat_completeness auto
termination
proof (relation "measure (\<lambda>it. unat (size_f (file_p it)) - addr it)")
  show "wf (measure (\<lambda>it. unat (size_f (file_p it)) - addr it))" by simp
next
  fix it b x y c
  assume "riff_file_data_chunk_iterator_next it = Inr b" and "(x, y) = b" and "x = Some c"
  then have "riff_file_data_chunk_iterator_next it = Inr (Some c, y)" by simp
  from next_result_Some [OF this]
  have "file_p y = file_p it" and "addr it < addr y" and "addr it < unat (size_f (file_p it))"
    by auto
  then show "(y\<lparr>out := out y @
             [CHUNK (riff_file_data_chunk_iterator_get_list_level y) c
                    (subchunk_id (file_p y) c) (subchunk_size (file_p y) c)]\<rparr>, it)
        \<in> measure (\<lambda>it. unat (size_f (file_p it)) - addr it)"
    by simp
qed

declare main_loop.simps [simp del]

section \<open>Opening and closing the file\<close>

text \<open>
  The resources of the process that the reader acquires and releases: descriptors
  that are open, mappings that are established (start address and length), blocks that
  are allocated, and the lines written to the standard error stream.
\<close>

record os_state =
  open_fds :: nat
  mappings :: "(nat \<times> size_t) list"
  heap_blocks :: nat
  stderr :: "string list"

text \<open>
  What the system answers to the calls of \<^verbatim>\<open>riff_file_open\<close> for a given path:
  whether \<^verbatim>\<open>malloc\<close> and \<^verbatim>\<open>open\<close> succeed, the \<^verbatim>\<open>st_size\<close> that \<^verbatim>\<open>fstat\<close>
  reports (\<open>None\<close> when it fails), the address \<^verbatim>\<open>mmap\<close> returns (\<open>None\<close> for
  \<^verbatim>\<open>MAP_FAILED\<close>), and the bytes of the file.
\<close>

record sys_env =
  malloc_ok :: bool
  open_ok :: bool
  fstat_size :: "size_t option"
  mmap_res :: "nat option"
  content :: "nat \<Rightarrow> byte"

definition perror :: "string \<Rightarrow> os_state \<Rightarrow> os_state" where
  "perror msg os = os\<lparr>stderr := stderr os @ [msg]\<rparr>"

definition free :: "os_state \<Rightarrow> os_state" where
  "free os = os\<lparr>heap_blocks := heap_blocks os - 1\<rparr>"

definition close_fd :: "os_state \<Rightarrow> os_state" where
  "close_fd os = os\<lparr>open_fds := open_fds os - 1\<rparr>"

text \<open>
  \<^verbatim>\<open>munmap(a, len)\<close> removes the mappings that lie in the range from \<open>a\<close> to
  \<open>a + len\<close>; a range that holds no mapping is not an error.
\<close>

definition munmap :: "nat \<Rightarrow> size_t \<Rightarrow> os_state \<Rightarrow> os_state" where
  "munmap a len os =
     os\<lparr>mappings :=
          filter (\<lambda>(b, n). \<not> (a \<le> b \<and> b + unat n \<le> a + unat len)) (mappings os)\<rparr>"

text \<open>
  \<^verbatim>\<open>riff_file_open\<close>, path by path. The result is the handle (\<open>None\<close> for \<^verbatim>\<open>NULL\<close>)
  and the resources as the call leaves them. The length test compares the pointer
  difference, a signed 64-bit value, with 12. The two \<^verbatim>\<open>memcmp\<close> of the header test
  are evaluated in order, as \<^verbatim>\<open>||\<close> does.
\<close>

definition riff_file_open ::
    "sys_env \<Rightarrow> byte list \<Rightarrow> os_state \<Rightarrow> riff_file_s option \<times> os_state" where
  "riff_file_open env type os =
     (if \<not> malloc_ok env then (None, perror ''malloc file failed'' os)
      else let os1 = os\<lparr>heap_blocks := heap_blocks os + 1\<rparr> in
      if \<not> open_ok env then (None, free (perror ''file open failed'' os1))
      else let os2 = os1\<lparr>open_fds := open_fds os1 + 1\<rparr> in
      case fstat_size env of
        None \<Rightarrow> (None, free (perror ''file stat failed'' os2))
      | Some sz \<Rightarrow>
          (case mmap_res env of
             None \<Rightarrow> (None, free (close_fd (perror ''mmap file failed'' os2)))
           | Some dump_addr \<Rightarrow>
               let os3 = close_fd (os2\<lparr>mappings := (dump_addr, sz) # mappings os2\<rparr>) in
               if sz <s 12
               then (None, free (munmap 0 sz (perror ''riff header too short'' os3)))
               else let f = \<lparr> size_f = sz, vaddr = dump_addr, mem = content env \<rparr> in
                 if peek f 0 4 \<noteq> Some RIFF_FILE_TYPE_CHUNK_MAGIC
                 then (None, free (munmap 0 sz (perror ''no valid riff header'' os3)))
                 else if peek f 8 4 \<noteq> Some type
                 then (None, free (munmap 0 sz (perror ''no valid riff header'' os3)))
                 else (Some f, os3)))"

text \<open>
  \<^verbatim>\<open>riff_file_close\<close>; \<open>unmap_ok\<close> says whether \<^verbatim>\<open>munmap\<close> succeeds. The result is the
  returned \<^verbatim>\<open>int32_t\<close> and the resources after the call.
\<close>

definition riff_file_close :: "riff_file_s \<Rightarrow> bool \<Rightarrow> os_state \<Rightarrow> int \<times> os_state" where
  "riff_file_close f unmap_ok os =
     (let os1 = (if unmap_ok then munmap (vaddr f) (size_f f) os
                 else perror ''file munmap failed'' os)
      in (0, free os1))"

text \<open>\<^verbatim>\<open>riff_file_data_chunk_iterator_delete\<close> frees the iterator and returns 0.\<close>

definition riff_file_data_chunk_iterator_delete :: "os_state \<Rightarrow> int \<times> os_state" where
  "riff_file_data_chunk_iterator_delete os = (0, free os)"

section \<open>Files as byte sequences\<close>

text \<open>
  A file given by its bytes \<open>bs\<close>: \<open>le32\<close> writes a size field, \<open>mapped bs\<close> is the
  content of its mapping, \<open>env_of bs a\<close> is a system in which every call succeeds
  on it, the mapping being placed at address \<open>a\<close>, and \<open>file_of bs a\<close> is the handle
  that \<^verbatim>\<open>riff_file_open\<close> then returns.
\<close>

definition le32 :: "nat \<Rightarrow> byte list" where
  "le32 n = [of_nat (n mod 256), of_nat (n div 256 mod 256),
             of_nat (n div 65536 mod 256), of_nat (n div 16777216 mod 256)]"

definition mapped :: "byte list \<Rightarrow> nat \<Rightarrow> byte" where
  "mapped bs i = (if i < length bs then bs ! i else 0)"

definition env_of :: "byte list \<Rightarrow> nat \<Rightarrow> sys_env" where
  "env_of bs a = \<lparr> malloc_ok = True, open_ok = True, fstat_size = Some (of_nat (length bs)),
                   mmap_res = Some a, content = mapped bs \<rparr>"

definition file_of :: "byte list \<Rightarrow> nat \<Rightarrow> riff_file_s" where
  "file_of bs a = \<lparr> size_f = of_nat (length bs), vaddr = a, mem = mapped bs \<rparr>"

definition os_init :: os_state where
  "os_init = \<lparr> open_fds = 0, mappings = [], heap_blocks = 0, stderr = [] \<rparr>"

text \<open>
  The whole test program on such a file: open, create the iterator with both
  callbacks registered, run the loop. The result is the output, or \<open>None\<close> when
  the file is not opened.
\<close>

definition run_file :: "byte list \<Rightarrow> byte list \<Rightarrow> (error + event list) option" where
  "run_file bs type =
     (case riff_file_data_chunk_iterator_new
             (fst (riff_file_open (env_of bs 4096) type os_init)) True True [0, 0, 0, 0, 0, 0, 0, 0, 0] of
        None \<Rightarrow> None
      | Some it \<Rightarrow> Some (case main_loop it of Inl e \<Rightarrow> Inl e | Inr it' \<Rightarrow> Inr (out it')))"

text \<open>
  Scenario A of the specification: a master header with the size field \<open>sz\<close> and two
  leaf chunks, \<^verbatim>\<open>fmt\<close> with the payload \<open>p1\<close> and \<^verbatim>\<open>data\<close> with the payload \<open>p2\<close>.
\<close>

definition scenario_A :: "byte list \<Rightarrow> byte list \<Rightarrow> byte list \<Rightarrow> byte list" where
  "scenario_A sz p1 p2 = cstr ''RIFF'' @ sz @ cstr ''WAVE''
                          @ cstr ''fmt '' @ le32 16 @ p1
                          @ cstr ''data'' @ le32 4 @ p2"

text \<open>Scenario B: the file of scenario A with given bytes, to be opened as \<^verbatim>\<open>AVI\<close>.\<close>

definition scenario_B :: "byte list" where
  "scenario_B = scenario_A (le32 40) (le32 1 @ le32 2 @ le32 3 @ le32 4) (le32 5)"

text \<open>The call of \<^verbatim>\<open>riff_file_data_chunk_iterator_next\<close> made after \<open>n\<close> earlier calls.\<close>

fun next_repeated ::
    "nat \<Rightarrow> riff_file_iterator_s \<Rightarrow> error + (nat option \<times> riff_file_iterator_s)" where
  "next_repeated 0 it = riff_file_data_chunk_iterator_next it"
| "next_repeated (Suc n) it =
     (case riff_file_data_chunk_iterator_next it of
        Inl e \<Rightarrow> Inl e
      | Inr (c, it') \<Rightarrow> next_repeated n it')"

text \<open>
  The charge of \<open>n\<close> bytes against one budget \<open>b\<close>, as the specification words it:
  subtract when the budget holds at least \<open>n\<close>, clamp to 0 otherwise.
\<close>

definition charge :: "size_t \<Rightarrow> size_t \<Rightarrow> size_t" where
  "charge n b = (if n \<le> b then b - n else 0)"

section \<open>Reading a file given by its bytes\<close>

lemma map_mapped_upt:
  "p + n \<le> length bs \<Longrightarrow> map (mapped bs) [p..<p + n] = take n (drop p bs)"
  by (rule nth_equalityI) (auto simp: mapped_def)

lemma size_file_of: "length bs < 2 ^ 64 \<Longrightarrow> unat (size_f (file_of bs a)) = length bs"
  by (simp add: file_of_def unat_of_nat)

lemma peek_file_of:
  "length bs < 2 ^ 64 \<Longrightarrow>
   peek (file_of bs a) p n = (if p + n \<le> length bs then Some (take n (drop p bs)) else None)"
  using map_mapped_upt [of p n bs] by (simp add: peek_def size_file_of) (simp add: file_of_def)

lemma subchunk_id_file_of:
  "c + 4 \<le> length bs \<Longrightarrow> subchunk_id (file_of bs a) c = take 4 (drop c bs)"
  using map_mapped_upt [of c 4 bs] by (simp add: subchunk_id_def file_of_def)

lemma subchunk_size_file_of:
  "c + 8 \<le> length bs \<Longrightarrow> subchunk_size (file_of bs a) c = rd_u32 (take 4 (drop (c + 4) bs))"
  using map_mapped_upt [of "c + 4" 4 bs] by (simp add: subchunk_size_def file_of_def add.commute)

lemma not_sless_12:
  assumes "12 \<le> n" and "n < 2 ^ 63"
  shows "\<not> (of_nat n :: size_t) <s 12"
proof -
  have "sint (of_nat n :: size_t) = int n"
    using assms by (simp add: signed_of_nat signed_take_bit_int_eq_self)
  then show ?thesis using assms by (simp add: word_sless_alt)
qed

lemma riff_file_open_env_of:
  assumes "12 \<le> length bs" and "length bs < 2 ^ 63" and "0 < a"
  shows "riff_file_open (env_of bs a) type os_init
           = (if take 4 bs = cstr ''RIFF'' \<and> take 4 (drop 8 bs) = type
              then (Some (file_of bs a),
                    os_init\<lparr>mappings := [(a, of_nat (length bs))], heap_blocks := 1\<rparr>)
              else (None, os_init\<lparr>mappings := [(a, of_nat (length bs))],
                                  stderr := [''no valid riff header'']\<rparr>))"
proof -
  have s: "\<not> (of_nat (length bs) :: size_t) <s 12"
    using assms(1,2) by (rule not_sless_12)
  have l: "length bs < 2 ^ 64" using assms(2) by simp
  have f: "\<lparr> size_f = of_nat (length bs), vaddr = a, mem = mapped bs \<rparr> = file_of bs a"
    by (simp add: file_of_def)
  show ?thesis
    using s assms(1,3)
    by (simp add: riff_file_open_def env_of_def Let_def RIFF_FILE_TYPE_CHUNK_MAGIC_def f
          peek_file_of [OF l] os_init_def close_fd_def free_def perror_def munmap_def)
qed

lemma riff_file_open_ok:
  assumes "12 \<le> length bs" and "length bs < 2 ^ 63"
    and "take 4 bs = cstr ''RIFF''" and "take 4 (drop 8 bs) = type"
  shows "riff_file_open (env_of bs a) type os_init
           = (Some (file_of bs a),
              os_init\<lparr>mappings := [(a, of_nat (length bs))], heap_blocks := 1\<rparr>)"
proof -
  have s: "\<not> (of_nat (length bs) :: size_t) <s 12"
    using assms(1,2) by (rule not_sless_12)
  have l: "length bs < 2 ^ 64" using assms(2) by simp
  have f: "\<lparr> size_f = of_nat (length bs), vaddr = a, mem = mapped bs \<rparr> = file_of bs a"
    by (simp add: file_of_def)
  show ?thesis
    using s assms(1,3,4)
    by (simp add: riff_file_open_def env_of_def Let_def RIFF_FILE_TYPE_CHUNK_MAGIC_def f
          peek_file_of [OF l] os_init_def close_fd_def)
qed

section \<open>The effect of a charge\<close>

lemma fold_sub_list_upt:
  "n \<le> length (list_size it) \<Longrightarrow>
   list_size (fold (sub_list len) [0..<n] it)
     = map (charge (scast len)) (take n (list_size it)) @ drop n (list_size it)
   \<and> out (fold (sub_list len) [0..<n] it)
     = out it @ map (\<lambda>i. UNDERFLOW i (list_size it ! i) len)
                    (filter (\<lambda>i. \<not> scast len \<le> list_size it ! i) [0..<n])"
proof (induction n)
  case 0
  then show ?case by simp
next
  case (Suc n)
  define s where "s = fold (sub_list len) [0..<n] it"
  have n: "n < length (list_size it)" using Suc.prems by simp
  have IH: "list_size s = map (charge (scast len)) (take n (list_size it)) @ drop n (list_size it)"
       "out s = out it @ map (\<lambda>i. UNDERFLOW i (list_size it ! i) len)
                    (filter (\<lambda>i. \<not> scast len \<le> list_size it ! i) [0..<n])"
    using Suc.IH n by (simp_all add: s_def)
  have nth: "list_size s ! n = list_size it ! n"
    using n by (simp add: IH(1) nth_append)
  have upd: "(list_size s)[n := v]
               = map (charge (scast len)) (take n (list_size it)) @ v # drop (Suc n) (list_size it)"
    for v
    using n by (simp add: IH(1) list_update_append Cons_nth_drop_Suc [symmetric])
  have tk: "take (Suc n) (list_size it) = take n (list_size it) @ [list_size it ! n]"
    using n by (simp add: take_Suc_conv_app_nth)
  have step: "fold (sub_list len) [0..<Suc n] it = sub_list len n s"
    by (simp add: s_def)
  show ?case
    unfolding step sub_list_def [of len n s]
    by (simp add: nth upd tk IH(2) charge_def)
qed

lemma sub_all_lists_effect:
  assumes "list_level it < length (list_size it)"
  shows "list_size (sub_all_lists it len)
           = map (charge (scast len)) (take (Suc (list_level it)) (list_size it))
             @ drop (Suc (list_level it)) (list_size it)"
    and "out (sub_all_lists it len)
           = out it @ map (\<lambda>i. UNDERFLOW i (list_size it ! i) len)
                    (filter (\<lambda>i. \<not> scast len \<le> list_size it ! i) [0..<Suc (list_level it)])"
  using fold_sub_list_upt [of "Suc (list_level it)" it len] assms
  unfolding sub_all_lists_def by simp_all

section \<open>Single calls\<close>

lemma peek_8_split:
  assumes "peek f p 8 = Some hdr"
  shows "peek f p 4 = Some (take 4 hdr)" and "peek f (p + 4) 4 = Some (drop 4 hdr)"
proof -
  have "p + 4 + 4 = p + 8" by simp
  then have u: "[p..<p + 8] = [p..<p + 4] @ [p + 4..<p + 4 + 4]"
    using upt_add_eq_append [of p "p + 4" 4] by (simp only: le_add1)
  from assms have h: "hdr = map (mem f) [p..<p + 8]" and b: "p + 8 \<le> unat (size_f f)"
    by (auto simp: peek_def split: if_splits)
  have t: "take 4 hdr = map (mem f) [p..<p + 4]" unfolding h u by simp
  have d: "drop 4 hdr = map (mem f) [p + 4..<p + 4 + 4]" unfolding h u by simp
  show "peek f p 4 = Some (take 4 hdr)"
    unfolding t peek_def using b by simp
  show "peek f (p + 4) 4 = Some (drop 4 hdr)"
    unfolding d peek_def using b by simp
qed


lemma next_leaf:
  assumes "\<not> (0 < list_level it \<and> list_size it ! list_level it = 0)"
    and "\<not> (list_level it = 0 \<and> list_size it ! 0 = 0)"
    and "peek (file_p it) (addr it) 8 = Some hdr"
    and "take 4 hdr \<noteq> cstr ''LIST''" and "take 4 hdr \<noteq> cstr ''INFO''"
  shows "riff_file_data_chunk_iterator_next it
           = Inr (Some (addr it),
                  sub_all_lists
                    ((sub_all_lists (it\<lparr>addr := addr it + 8\<rparr>) 8)
                       \<lparr>addr := addr it + 8 + unat (rd_u32 (drop 4 hdr))\<rparr>)
                    (rd_u32 (drop 4 hdr)))"
proof -
  have c: "close_levels it = it" using assms(1) by (subst close_levels.simps) auto
  have d: "data_subchunk it = Inr (sub_all_lists
                    ((sub_all_lists (it\<lparr>addr := addr it + 8\<rparr>) 8)
                       \<lparr>addr := addr it + 8 + unat (rd_u32 (drop 4 hdr))\<rparr>)
                    (rd_u32 (drop 4 hdr)))"
    using peek_8_split(2) [OF assms(3)] by (simp add: data_subchunk_def Let_def)
  show ?thesis
    apply (subst riff_file_data_chunk_iterator_next.simps)
    using assms(2,4,5) peek_8_split(1) [OF assms(3)] 
    apply (simp add: c d Let_def)
    done
qed
lemma next_None_state:
  "riff_file_data_chunk_iterator_next it0 = Inr (None, it') \<Longrightarrow>
     list_level it' = 0 \<and> list_size it' ! 0 = 0"
  by (induction it0 rule: next_induct) auto

lemma next_at_end:
  assumes "list_level it = 0" and "list_size it ! 0 = 0"
  shows "riff_file_data_chunk_iterator_next it = Inr (None, it)"
proof -
  have "close_levels it = it" using assms by (subst close_levels.simps) simp
  then show ?thesis using assms
    by (simp add: riff_file_data_chunk_iterator_next.simps [of it] Let_def)
qed

section \<open>Well-formed files\<close>

text \<open>
  A RIFF payload as a sequence of chunks: a leaf with its id and payload, a list with
  its type and sub-chunks, and a list of type \<^verbatim>\<open>movi\<close> with its raw content. \<open>ser\<close> writes
  a chunk as the format lays it out (no pad bytes), \<open>riff_file\<close> a whole file.
\<close>

datatype chunk = Leaf "byte list" "byte list" | Lst "byte list" "chunk list" | Movi "byte list"

fun ser :: "chunk \<Rightarrow> byte list" where
  "ser (Leaf i p) = i @ le32 (length p) @ p"
| "ser (Lst t cs) =
     cstr ''LIST'' @ le32 (4 + length (concat (map ser cs))) @ t @ concat (map ser cs)"
| "ser (Movi p) = cstr ''LIST'' @ le32 (4 + length p) @ cstr ''movi'' @ p"

definition sers :: "chunk list \<Rightarrow> byte list" where
  "sers cs = concat (map ser cs)"

definition riff_file :: "byte list \<Rightarrow> byte list \<Rightarrow> chunk list \<Rightarrow> byte list" where
  "riff_file sz fmt cs = cstr ''RIFF'' @ sz @ fmt @ sers cs"

fun wf_chunk :: "nat \<Rightarrow> chunk \<Rightarrow> bool" where
  "wf_chunk d (Leaf i p) = (length i = 4 \<and> i \<noteq> cstr ''LIST'' \<and> i \<noteq> cstr ''INFO'')"
| "wf_chunk d (Lst t cs) =
     (length t = 4 \<and> t \<noteq> cstr ''movi'' \<and> Suc d < RIFF_FILE_NESTED_LIST_MAX_LEVELS
      \<and> list_all (wf_chunk (Suc d)) cs)"
| "wf_chunk d (Movi p) = (Suc d < RIFF_FILE_NESTED_LIST_MAX_LEVELS)"

fun evs :: "nat \<Rightarrow> nat \<Rightarrow> chunk \<Rightarrow> event list"
  and evss :: "nat \<Rightarrow> nat \<Rightarrow> chunk list \<Rightarrow> event list" where
  "evs d a (Leaf i p) = [CHUNK d a i (of_nat (length p))]"
| "evs d a (Lst t cs) =
     LIST_START (Suc d) a (of_nat (4 + length (sers cs))) t
       # evss (Suc d) (a + 12) cs @ [LIST_END (Suc d)]"
| "evs d a (Movi p) =
     [LIST_START (Suc d) a (of_nat (4 + length p)) (cstr ''movi''), LIST_END (Suc d)]"
| "evss d a [] = []"
| "evss d a (c # cs) = evs d a c @ evss d (a + length (ser c)) cs"

fun budgets :: "chunk list list \<Rightarrow> nat list" where
  "budgets [] = []"
| "budgets (r # K) = map (\<lambda>b. b + length (sers r)) (budgets K) @ [length (sers r)]"

fun wf_stack :: "chunk list list \<Rightarrow> bool" where
  "wf_stack [] = True"
| "wf_stack (r # K) = (list_all (wf_chunk (length K)) r \<and> wf_stack K)"

fun kev :: "nat \<Rightarrow> chunk list list \<Rightarrow> event list" where
  "kev a [] = []"
| "kev a (r # K) =
     evss (length K) a r
     @ (if K = [] then [] else LIST_END (length K) # kev (a + length (sers r)) K)"

fun csize :: "chunk \<Rightarrow> nat" where
  "csize (Leaf i p) = 1"
| "csize (Lst t cs) = 2 + sum_list (map csize cs)"
| "csize (Movi p) = 2"

definition weight :: "chunk list list \<Rightarrow> nat" where
  "weight K = length K + sum_list (map (\<lambda>r. sum_list (map csize r)) K)"

definition pos :: "byte list \<Rightarrow> chunk list list \<Rightarrow> riff_file_iterator_s \<Rightarrow> bool" where
  "pos bs K it \<longleftrightarrow>
     file_p it = file_of bs (vaddr (file_p it)) \<and> length bs < 2 ^ 31
     \<and> K \<noteq> [] \<and> list_level it = length K - 1
     \<and> length (list_size it) = RIFF_FILE_NESTED_LIST_MAX_LEVELS
     \<and> length K \<le> RIFF_FILE_NESTED_LIST_MAX_LEVELS
     \<and> addr it \<le> length bs \<and> drop (addr it) bs = concat (map sers K)
     \<and> map unat (take (length K) (list_size it)) = budgets K
     \<and> list_start_cb it \<and> list_end_cb it"

text \<open>
  A file is well-formed when it is the serialisation of chunks in which every leaf id has
  four bytes and is neither \<^verbatim>\<open>LIST\<close> nor \<^verbatim>\<open>INFO\<close>, every list type has four bytes, only
  \<open>Movi\<close> has the type \<^verbatim>\<open>movi\<close>, no list is nested deeper than the iterator allows, and
  the file is shorter than \<open>2^32\<close> bytes, so that every size in it fits its 32-bit field.
  The chunks follow one another without pad bytes, which is how the code reads them.
  Whether a file is also shorter than \<open>2^31\<close> bytes, so that every size in it passes
  unchanged through the \<^verbatim>\<open>int\<close> parameter of \<^verbatim>\<open>sub_all_lists\<close>, is said where it matters.
\<close>

definition wf_file :: "byte list \<Rightarrow> byte list \<Rightarrow> chunk list \<Rightarrow> bool" where
  "wf_file sz fmt cs \<longleftrightarrow>
     length sz = 4 \<and> length fmt = 4 \<and> list_all (wf_chunk 0) cs
     \<and> length (riff_file sz fmt cs) < 2 ^ 32"

text \<open>
  The pointers that an output shows, in order, and the nesting discipline of an
  output: \<open>nest d es\<close> runs through \<open>es\<close> from depth \<open>d\<close>; a list start must announce the
  depth one below the current one, a list end and a chunk must carry the current
  depth, the end of the file must come at depth 0. The result is the depth reached,
  or \<open>None\<close> when the discipline is broken.
\<close>

fun ptrs :: "event list \<Rightarrow> nat list" where
  "ptrs [] = []"
| "ptrs (LIST_START l p s t # es) = p # ptrs es"
| "ptrs (CHUNK l p i s # es) = p # ptrs es"
| "ptrs (e # es) = ptrs es"

fun nest :: "nat \<Rightarrow> event list \<Rightarrow> nat option" where
  "nest d [] = Some d"
| "nest d (LIST_START l p s t # es) = (if l = Suc d then nest (Suc d) es else None)"
| "nest d (LIST_END l # es) = (if l = d \<and> 0 < d then nest (d - 1) es else None)"
| "nest d (CHUNK l p i s # es) = (if l = d then nest d es else None)"
| "nest d (UNDERFLOW i b n # es) = nest d es"
| "nest d (EOF # es) = (if d = 0 then nest 0 es else None)"

text \<open>
  The report of an underflow is a line of output that is neither a list start, a list
  end nor a chunk.
\<close>

fun is_underflow :: "event \<Rightarrow> bool" where
  "is_underflow (UNDERFLOW i b n) = True"
| "is_underflow e = False"

text \<open>
  What one call of \<^verbatim>\<open>riff_file_data_chunk_iterator_next\<close> adds to the output, from the
  iterator \<open>it\<close> to the iterator \<open>it'\<close>: lines that obey the nesting discipline from the
  level of \<open>it\<close> to the level of \<open>it'\<close>, with increasing pointers between the two
  cursors; the callbacks stay registered.
\<close>

definition call_adds :: "riff_file_iterator_s \<Rightarrow> riff_file_iterator_s \<Rightarrow> event list \<Rightarrow> bool" where
  "call_adds it it' es \<longleftrightarrow>
     out it' = out it @ es \<and> nest (list_level it) es = Some (list_level it')
     \<and> sorted_wrt (<) (ptrs es) \<and> list_all (\<lambda>p. addr it \<le> p \<and> p < addr it') (ptrs es)
     \<and> list_start_cb it' \<and> list_end_cb it'"

text \<open>Scenario D: \<open>n\<close> lists, each the only content of the one before it.\<close>

fun deep :: "nat \<Rightarrow> chunk list" where
  "deep 0 = []"
| "deep (Suc n) = [Lst (cstr ''lst '') (deep n)]"

text \<open>Scenario C: a \<^verbatim>\<open>LIST\<close> of type \<^verbatim>\<open>INFO\<close> that holds one leaf chunk \<^verbatim>\<open>INAM\<close>.\<close>

definition scenario_C_chunks :: "chunk list" where
  "scenario_C_chunks = [Lst (cstr ''INFO'') [Leaf (cstr ''INAM'') (cstr ''riff'')]]"

definition scenario_C :: "byte list" where
  "scenario_C = riff_file (le32 28) (cstr ''WAVE'') scenario_C_chunks"

text \<open>The handle of scenario C, and iterators over it.\<close>

definition file_C :: riff_file_s where
  "file_C = file_of scenario_C 4096"

definition it_C :: "nat \<Rightarrow> nat \<Rightarrow> size_t list \<Rightarrow> event list \<Rightarrow> riff_file_iterator_s" where
  "it_C a l bs ev = \<lparr> file_p = file_C, addr = a, list_level = l,
                        list_size = bs @ [0, 0, 0, 0, 0, 0, 0, 0],
                        list_start_cb = True, list_end_cb = True, out = ev \<rparr>"

text \<open>An iterator at depth 2 whose innermost budget is smaller than a header.\<close>

definition it_W :: riff_file_iterator_s where
  "it_W = \<lparr> file_p = file_C, addr = 24, list_level = 2,
            list_size = [100, 50, 5, 0, 0, 0, 0, 0, 0, 0],
            list_start_cb = True, list_end_cb = True, out = [] \<rparr>"


text \<open>
  A well-formed AVI file of 2 GiB and 32 bytes, given by its mapping: the master
  header, a \<^verbatim>\<open>movi\<close> list that declares \<open>2^31\<close> bytes (its type and \<open>2^31 - 4\<close> bytes of
  content, all 0), and after it an \<^verbatim>\<open>idx1\<close> chunk of 4 bytes. \<open>it_big\<close> is the iterator
  that \<^verbatim>\<open>riff_file_data_chunk_iterator_new\<close> creates on it.
\<close>

definition big_movi_head :: "byte list" where
  "big_movi_head = cstr ''RIFF'' @ le32 0x80000018 @ cstr ''AVI ''
                    @ cstr ''LIST'' @ le32 0x80000000 @ cstr ''movi''"

definition big_movi_tail :: "byte list" where
  "big_movi_tail = cstr ''idx1'' @ le32 4 @ le32 0"

definition big_movi_file :: riff_file_s where
  "big_movi_file =
     \<lparr> size_f = 0x80000020, vaddr = 4096,
       mem = (\<lambda>i. if i < 24 then big_movi_head ! i
                  else if 0x80000014 \<le> i \<and> i < 0x80000020 then big_movi_tail ! (i - 0x80000014)
                  else 0) \<rparr>"

definition it_big :: riff_file_iterator_s where
  "it_big = \<lparr> file_p = big_movi_file, addr = 12, list_level = 0,
              list_size = [0x80000014, 0, 0, 0, 0, 0, 0, 0, 0, 0],
              list_start_cb = True, list_end_cb = True, out = [] \<rparr>"

text \<open>
  A well-formed AVI file of 2 GiB and 40 bytes: a list of type \<^verbatim>\<open>lst\<close> that holds the
  leaf chunk \<^verbatim>\<open>big\<close> with \<open>2^31\<close> payload bytes, all 0, and after it the leaf chunk
  \<^verbatim>\<open>tail\<close> with no payload. \<open>big_leaf_head\<close> is the 32 bytes before the payload,
  \<open>it_leaf\<close> gives the iterators over the file.
\<close>

definition big_payload :: "byte list" where
  "big_payload = replicate 0x80000000 0"

definition big_leaf_chunks :: "chunk list" where
  "big_leaf_chunks =
     [Lst (cstr ''lst '') [Leaf (cstr ''big '') big_payload, Leaf (cstr ''tail'') []]]"

definition big_leaf_bytes :: "byte list" where
  "big_leaf_bytes = riff_file (le32 0x80000020) (cstr ''AVI '') big_leaf_chunks"

definition big_leaf_head :: "byte list" where
  "big_leaf_head = [82, 73, 70, 70, 32, 0, 0, 128, 65, 86, 73, 32,
                    76, 73, 83, 84, 20, 0, 0, 128, 108, 115, 116, 32,
                    98, 105, 103, 32, 0, 0, 0, 128]"

definition big_leaf_file :: riff_file_s where
  "big_leaf_file = file_of big_leaf_bytes 4096"

definition it_leaf :: "nat \<Rightarrow> nat \<Rightarrow> size_t list \<Rightarrow> event list \<Rightarrow> riff_file_iterator_s" where
  "it_leaf a l bs ev = \<lparr> file_p = big_leaf_file, addr = a, list_level = l,
                         list_size = bs @ [0, 0, 0, 0, 0, 0, 0, 0],
                         list_start_cb = True, list_end_cb = True, out = ev \<rparr>"

text \<open>
  Scenario F: a file of 36 bytes that \<^verbatim>\<open>riff_file_open\<close> accepts. Its list declares 2 MiB
  and the leaf chunk in it declares 1 MiB, of which the file holds 4 bytes. \<open>it_F\<close>
  gives the iterators over it.
\<close>

definition scenario_F :: "byte list" where
  "scenario_F = cstr ''RIFF'' @ le32 28 @ cstr ''WAVE''
                 @ cstr ''LIST'' @ le32 0x200000 @ cstr ''abcd''
                 @ cstr ''data'' @ le32 0x100000 @ le32 0"

definition it_F :: "nat \<Rightarrow> nat \<Rightarrow> size_t list \<Rightarrow> event list \<Rightarrow> riff_file_iterator_s" where
  "it_F a l bs ev = \<lparr> file_p = file_of scenario_F 4096, addr = a, list_level = l,
                      list_size = bs @ [0, 0, 0, 0, 0, 0, 0, 0],
                      list_start_cb = True, list_end_cb = True, out = ev \<rparr>"



lemma sers_simps [simp]: "sers [] = []" "sers (c # cs) = ser c @ sers cs"
  by (simp_all add: sers_def)

lemma ser_Lst: "ser (Lst t cs) = cstr ''LIST'' @ le32 (4 + length (sers cs)) @ t @ sers cs"
  by (simp add: sers_def)

lemma length_cstr [simp]: "length (cstr s) = length s"
  by (simp add: cstr_def)

lemma length_le32 [simp]: "length (le32 n) = 4"
  by (simp add: le32_def)

lemma length_budgets [simp]: "length (budgets K) = length K"
  by (induction K) simp_all

lemma budgets_ge: "b \<in> set (budgets (r # K)) \<Longrightarrow> length (sers r) \<le> b"
  by auto

lemma budgets_le: "b \<in> set (budgets K) \<Longrightarrow> b \<le> length (concat (map sers K))"
  by (induction K arbitrary: b) auto

lemma budgets_Cons_Cons:
  "budgets ((c # r) # K) = map (\<lambda>b. b + length (ser c)) (budgets (r # K))"
  by simp

lemma budgets_push:
  "budgets (cs # K) = map (\<lambda>b. b + length (sers cs)) (budgets K) @ [length (sers cs)]"
  by simp

lemma budgets_pop: "budgets ([] # K) = budgets K @ [0]"
  by simp

declare budgets.simps [simp del]

lemma scast_of_nat_32_64:
  assumes "n < 2 ^ 31"
  shows "(scast (of_nat n :: int_t) :: size_t) = of_nat n"
proof -
  have "sint (of_nat n :: int_t) = int n"
    using assms by (simp add: signed_of_nat signed_take_bit_int_eq_self)
  then show ?thesis by (simp add: scast_eq)
qed

lemma charge_nat:
  assumes "n < 2 ^ 31" and "n \<le> unat b"
  shows "unat (charge (scast (of_nat n :: int_t)) b) = unat b - n"
    and "scast (of_nat n :: int_t) \<le> b"
proof -
  have u: "unat (of_nat n :: size_t) = n"
    using assms(1) by (simp add: unat_of_nat)
  have le: "(of_nat n :: size_t) \<le> b"
    using assms(2) by (simp add: word_le_nat_alt u)
  show "scast (of_nat n :: int_t) \<le> b"
    using le by (simp add: scast_of_nat_32_64 [OF assms(1)])
  show "unat (charge (scast (of_nat n :: int_t)) b) = unat b - n"
    using le by (simp add: scast_of_nat_32_64 [OF assms(1)] charge_def unat_sub u)
qed

lemma sub_all_lists_nat:
  assumes "list_level it < length (list_size it)" and "n < 2 ^ 31"
    and "\<And>b. b \<in> set (take (Suc (list_level it)) (list_size it)) \<Longrightarrow> n \<le> unat b"
  shows "map unat (take (Suc (list_level it)) (list_size (sub_all_lists it (of_nat n))))
           = map (\<lambda>b. b - n) (map unat (take (Suc (list_level it)) (list_size it)))"
    and "drop (Suc (list_level it)) (list_size (sub_all_lists it (of_nat n)))
           = drop (Suc (list_level it)) (list_size it)"
    and "out (sub_all_lists it (of_nat n)) = out it"
proof -
  let ?L = "Suc (list_level it)"
  note eff = sub_all_lists_effect [OF assms(1), of "of_nat n"]
  have len: "length (take ?L (list_size it)) = ?L" using assms(1) by simp
  show "map unat (take ?L (list_size (sub_all_lists it (of_nat n))))
           = map (\<lambda>b. b - n) (map unat (take ?L (list_size it)))"
    unfolding eff(1) using len assms(2,3) by (simp add: charge_nat(1))
  show "drop ?L (list_size (sub_all_lists it (of_nat n))) = drop ?L (list_size it)"
    unfolding eff(1) using len by simp
  have "filter (\<lambda>i. \<not> scast (of_nat n :: int_t) \<le> list_size it ! i) [0..<?L] = []"
  proof -
    have "scast (of_nat n :: int_t) \<le> list_size it ! i" if "i < ?L" for i
    proof -
      have "list_size it ! i \<in> set (take ?L (list_size it))"
        using that assms(1) by (metis len nth_mem nth_take)
      then show ?thesis using charge_nat(2) [OF assms(2)] assms(3) by blast
    qed
    then show ?thesis by (simp add: filter_empty_conv del: upt_Suc)
  qed
  then show "out (sub_all_lists it (of_nat n)) = out it"
    unfolding eff(2) by simp
qed


lemma le32_sum:
  assumes "n < 2 ^ 32"
  shows "n mod 256 + 256 * (n div 256 mod 256) + 65536 * (n div 65536 mod 256)
           + 16777216 * (n div 16777216 mod 256) = (n::nat)"
proof -
  have a: "n div 65536 = n div 256 div 256" "n div 16777216 = n div 256 div 256 div 256"
    by (simp_all add: div_mult2_eq [symmetric])
  have b: "n div 256 div 256 div 256 < 256"
    using assms by (simp add: div_mult2_eq [symmetric] less_mult_imp_div_less)
  define a0 a1 a2 q1 q2 q3 where "a0 = n mod 256" and "a1 = n div 256 mod 256"
    and "a2 = n div 256 div 256 mod 256" and "q1 = n div 256" and "q2 = n div 256 div 256"
    and "q3 = n div 256 div 256 div 256"
  have 1: "n = a0 + 256 * q1" and 2: "q1 = a1 + 256 * q2" and 3: "q2 = a2 + 256 * q3"
    unfolding a0_def a1_def a2_def q1_def q2_def q3_def by simp_all
  have "a0 + 256 * a1 + 65536 * a2 + 16777216 * q3 = n"
    using 1 2 3 by linarith
  then show ?thesis
    unfolding a using b by (simp add: a0_def a1_def a2_def q3_def)
qed

lemma rd_u32_le32: "n < 2 ^ 32 \<Longrightarrow> rd_u32 (le32 n) = of_nat n"
  using le32_sum [of n] by (simp add: rd_u32_def le32_def unat_of_nat)



lemma ucast_of_nat_32_64:
  "n < 2 ^ 32 \<Longrightarrow> (ucast (of_nat n :: uint32_t) :: size_t) = of_nat n"
  by (simp add: unsigned_of_nat take_bit_nat_eq_self)

lemma take_Suc_update:
  "n < length xs \<Longrightarrow> take (Suc n) (xs[n := v]) = take n xs @ [v]"
  by (simp add: take_Suc_conv_app_nth)

lemma length_ser_ge: "4 \<le> length (ser c)"
  by (cases c) simp_all

lemma ser_not_Nil [simp]: "ser c \<noteq> []"
  by (cases c) (simp_all add: le32_def)

lemma next_pop:
  assumes "0 < list_level it" and "list_size it ! list_level it = 0"
  shows "riff_file_data_chunk_iterator_next it
           = riff_file_data_chunk_iterator_next
               (it\<lparr>out := (if list_end_cb it then out it @ [LIST_END (list_level it)] else out it),
                   list_level := list_level it - 1\<rparr>)"
    (is "_ = riff_file_data_chunk_iterator_next ?it2")
proof -
  have c: "close_levels it = close_levels ?it2"
    by (subst close_levels.simps) (simp add: assms)
  show ?thesis
    by (simp only: riff_file_data_chunk_iterator_next.simps [of it]
          riff_file_data_chunk_iterator_next.simps [of ?it2] c)
qed

text \<open>Facts that a position gives.\<close>

lemma pos_top:
  assumes "pos bs ((c # r) # K) it"
  shows "list_level it = length K" and "list_level it < length (list_size it)"
    and "\<And>b. b \<in> set (take (Suc (list_level it)) (list_size it)) \<Longrightarrow> length (ser c) \<le> unat b"
    and "drop (addr it) bs = ser c @ sers r @ concat (map sers K)"
    and "addr it + length (ser c) \<le> length bs"
    and "\<not> (0 < list_level it \<and> list_size it ! list_level it = 0)"
    and "\<not> (list_level it = 0 \<and> list_size it ! 0 = 0)"
proof -
  let ?K0 = "(c # r) # K"
  from assms have lv: "list_level it = length K"
    and ln: "length (list_size it) = RIFF_FILE_NESTED_LIST_MAX_LEVELS"
    and lk: "Suc (length K) \<le> RIFF_FILE_NESTED_LIST_MAX_LEVELS"
    and dr: "drop (addr it) bs = concat (map sers ?K0)"
    and al: "addr it \<le> length bs"
    and bu: "map unat (take (Suc (length K)) (list_size it)) = budgets ?K0"
    by (simp_all add: pos_def)
  show "list_level it = length K" by (rule lv)
  show l: "list_level it < length (list_size it)" using lv ln lk by simp
  show d: "drop (addr it) bs = ser c @ sers r @ concat (map sers K)" using dr by simp
  have "length (drop (addr it) bs) = length (ser c @ sers r @ concat (map sers K))"
    by (simp only: d)
  then show "addr it + length (ser c) \<le> length bs" using al by simp
  show g: "length (ser c) \<le> unat b"
    if "b \<in> set (take (Suc (list_level it)) (list_size it))" for b
  proof -
    from that have "unat b \<in> unat ` set (take (Suc (length K)) (list_size it))"
      unfolding lv by (rule imageI)
    then have "unat b \<in> set (budgets ?K0)"
      unfolding bu [symmetric] by simp
    from budgets_ge [OF this] show ?thesis by simp
  qed
  have n: "list_size it ! i \<in> set (take (Suc (list_level it)) (list_size it))"
    if "i \<le> list_level it" for i
    using that l by (metis le_imp_less_Suc length_take min.absorb2 nth_mem nth_take Suc_leI)
  have nz: "list_size it ! i \<noteq> 0" if "i \<le> list_level it" for i
  proof -
    have "0 < unat (list_size it ! i)"
      using g [OF n [OF that]] length_ser_ge [of c] by linarith
    then show ?thesis by (simp add: unat_gt_0)
  qed
  show "\<not> (0 < list_level it \<and> list_size it ! list_level it = 0)"
    using nz [of "list_level it"] by simp
  show "\<not> (list_level it = 0 \<and> list_size it ! 0 = 0)"
    using nz [of 0] by simp
qed


lemma charge_xs:
  assumes "list_level it < length (list_size it)" and "len = of_nat n" and "n < 2 ^ 31"
    and "map unat (take (Suc (list_level it)) (list_size it)) = xs"
    and "\<And>x. x \<in> set xs \<Longrightarrow> n \<le> x"
  shows "map unat (take (Suc (list_level it)) (list_size (sub_all_lists it len)))
           = map (\<lambda>x. x - n) xs"
    and "drop (Suc (list_level it)) (list_size (sub_all_lists it len))
           = drop (Suc (list_level it)) (list_size it)"
    and "out (sub_all_lists it len) = out it"
proof -
  have b: "n \<le> unat b" if "b \<in> set (take (Suc (list_level it)) (list_size it))" for b
  proof -
    from that have "unat b \<in> unat ` set (take (Suc (list_level it)) (list_size it))"
      by (rule imageI)
    then have "unat b \<in> set xs" unfolding assms(4) [symmetric] by simp
    then show ?thesis by (rule assms(5))
  qed
  note r = sub_all_lists_nat [OF assms(1,3) b, folded assms(2)]
  show "map unat (take (Suc (list_level it)) (list_size (sub_all_lists it len)))
           = map (\<lambda>x. x - n) xs"
    using r(1) unfolding assms(4) .
  show "drop (Suc (list_level it)) (list_size (sub_all_lists it len))
           = drop (Suc (list_level it)) (list_size it)"
    by (rule r(2))
  show "out (sub_all_lists it len) = out it" by (rule r(3))
qed

lemma charge_add:
  assumes "list_level it < length (list_size it)" and "len = of_nat n" and "n < 2 ^ 31"
    and "n \<le> m"
    and "map unat (take (Suc (list_level it)) (list_size it)) = map (\<lambda>b. b + m) ys"
  shows "map unat (take (Suc (list_level it)) (list_size (sub_all_lists it len)))
           = map (\<lambda>b. b + (m - n)) ys"
    and "drop (Suc (list_level it)) (list_size (sub_all_lists it len))
           = drop (Suc (list_level it)) (list_size it)"
    and "out (sub_all_lists it len) = out it"
proof -
  have g: "n \<le> x" if "x \<in> set (map (\<lambda>b. b + m) ys)" for x
    using that assms(4) by auto
  note r = charge_xs [OF assms(1,2,3,5) g]
  have "map (\<lambda>x. x - n) (map (\<lambda>b. b + m) ys) = map (\<lambda>b. b + (m - n)) ys"
    using assms(4) by simp
  then show "map unat (take (Suc (list_level it)) (list_size (sub_all_lists it len)))
           = map (\<lambda>b. b + (m - n)) ys"
    using r(1) by simp
  show "drop (Suc (list_level it)) (list_size (sub_all_lists it len))
           = drop (Suc (list_level it)) (list_size it)"
    by (rule r(2))
  show "out (sub_all_lists it len) = out it" by (rule r(3))
qed

lemma pos_file:
  assumes "pos bs K it"
  shows "peek (file_p it) p n = (if p + n \<le> length bs then Some (take n (drop p bs)) else None)"
    and "c + 4 \<le> length bs \<Longrightarrow> subchunk_id (file_p it) c = take 4 (drop c bs)"
    and "c + 8 \<le> length bs \<Longrightarrow> subchunk_size (file_p it) c = rd_u32 (take 4 (drop (c + 4) bs))"
    and "length bs < 2 ^ 31"
proof -
  from assms have f: "file_p it = file_of bs (vaddr (file_p it))" and l: "length bs < 2 ^ 31"
    by (simp_all add: pos_def)
  have l64: "length bs < 2 ^ 64" using l by simp
  show "peek (file_p it) p n = (if p + n \<le> length bs then Some (take n (drop p bs)) else None)"
    by (subst f) (rule peek_file_of [OF l64])
  show "subchunk_id (file_p it) c = take 4 (drop c bs)" if "c + 4 \<le> length bs"
    by (subst f) (rule subchunk_id_file_of [OF that])
  show "subchunk_size (file_p it) c = rd_u32 (take 4 (drop (c + 4) bs))" if "c + 8 \<le> length bs"
    by (subst f) (rule subchunk_size_file_of [OF that])
  show "length bs < 2 ^ 31" by (rule l)
qed

lemma step_leaf:
  assumes p: "pos bs ((Leaf i q # r) # K) it"
    and w: "length i = 4" "i \<noteq> cstr ''LIST''" "i \<noteq> cstr ''INFO''"
  shows "\<exists>it1. riff_file_data_chunk_iterator_next it = Inr (Some (addr it), it1)
           \<and> pos bs (r # K) it1 \<and> out it1 = out it
           \<and> addr it1 = addr it + length (ser (Leaf i q))
           \<and> list_level it1 = length K
           \<and> subchunk_id (file_p it1) (addr it) = i
           \<and> subchunk_size (file_p it1) (addr it) = of_nat (length q)"
proof -
  let ?c = "Leaf i q"
  let ?K0 = "(?c # r) # K"
  note t = pos_top [OF p]
  note f = pos_file [OF p]
  have sc: "length (ser ?c) = 8 + length q" using w(1) by simp
  have q31: "length q < 2 ^ 31" using t(5) f(4) sc by simp
  have q32: "length q < 2 ^ 32" using q31 by simp
  have hdr: "take 8 (drop (addr it) bs) = i @ le32 (length q)"
    unfolding t(4) using w(1) by simp
  have pk: "peek (file_p it) (addr it) 8 = Some (i @ le32 (length q))"
    using t(5) sc hdr by (simp add: f(1))
  note sz = rd_u32_le32 [OF q32]
  have usz: "unat (of_nat (length q) :: uint32_t) = length q"
    using q32 by (simp add: unat_of_nat)
  define it1 where "it1 = sub_all_lists (it\<lparr>addr := addr it + 8\<rparr>) 8"
  define it2 where "it2 = sub_all_lists (it1\<lparr>addr := addr it + 8 + length q\<rparr>) (of_nat (length q))"
  have nx: "riff_file_data_chunk_iterator_next it = Inr (Some (addr it), it2)"
    using next_leaf [OF t(6) t(7) pk] w by (simp add: sz usz it1_def it2_def)
  have bud0: "map unat (take (Suc (list_level (it\<lparr>addr := addr it + 8\<rparr>)))
                        (list_size (it\<lparr>addr := addr it + 8\<rparr>)))
                = map (\<lambda>b. b + (8 + length q)) (budgets (r # K))"
    using p w(1) by (simp add: pos_def t(1) budgets_Cons_Cons)
  have l0: "list_level (it\<lparr>addr := addr it + 8\<rparr>) < length (list_size (it\<lparr>addr := addr it + 8\<rparr>))"
    using t(2) by simp
  note c1 = charge_add [OF l0 _ _ _ bud0, of 8 8, folded it1_def]
  have b1: "map unat (take (Suc (list_level it)) (list_size it1))
              = map (\<lambda>b. b + length q) (budgets (r # K))"
    and o1: "out it1 = out it"
    using c1(1) c1(3) by simp_all
  have l1: "list_level (it1\<lparr>addr := addr it + 8 + length q\<rparr>)
              < length (list_size (it1\<lparr>addr := addr it + 8 + length q\<rparr>))"
    using t(2) by (simp add: it1_def)
  have bud1: "map unat (take (Suc (list_level (it1\<lparr>addr := addr it + 8 + length q\<rparr>)))
                        (list_size (it1\<lparr>addr := addr it + 8 + length q\<rparr>)))
                = map (\<lambda>b. b + length q) (budgets (r # K))"
    using b1 by (simp add: it1_def)
  note c2 = charge_add [OF l1 refl q31 le_refl bud1, folded it2_def]
  have b2: "map unat (take (Suc (list_level it)) (list_size it2)) = budgets (r # K)"
    and o2: "out it2 = out it"
    using c2(1) c2(3) o1 by (simp_all add: it1_def)
  have fl: "file_p it2 = file_p it" "addr it2 = addr it + 8 + length q"
    "list_level it2 = list_level it" "length (list_size it2) = length (list_size it)"
    "list_start_cb it2 = list_start_cb it" "list_end_cb it2 = list_end_cb it"
    by (simp_all add: it2_def it1_def)
  have "drop (length (ser ?c)) (drop (addr it) bs) = sers r @ concat (map sers K)"
    unfolding t(4) by simp
  then have dr: "drop (addr it + 8 + length q) bs = concat (map sers (r # K))"
    using w(1) by (simp add: add.commute add.left_commute)
  have al: "addr it + 8 + length q \<le> length bs"
    using t(5) sc by simp
  have "pos bs (r # K) it2"
    unfolding pos_def fl
    using p b2 dr al t(1) by (simp add: pos_def)
  moreover have "subchunk_id (file_p it2) (addr it) = i"
  proof -
    have "take 4 (drop (addr it) bs) = i" unfolding t(4) using w(1) by simp
    then show ?thesis unfolding fl using f(2) [of "addr it"] al by simp
  qed
  moreover have "subchunk_size (file_p it2) (addr it) = of_nat (length q)"
  proof -
    have "take 4 (drop 4 (drop (addr it) bs)) = le32 (length q)"
      unfolding t(4) using w(1) by simp
    then have "take 4 (drop (addr it + 4) bs) = le32 (length q)"
      by (simp add: add.commute)
    then show ?thesis unfolding fl using f(3) [of "addr it"] al sz by simp
  qed
  moreover have "list_level it2 = length K" by (simp add: fl t(1))
  moreover have "addr it2 = addr it + length (ser ?c)" using w(1) by (simp add: fl)
  ultimately show ?thesis using nx o2 by blast
qed


lemma next_list:
  assumes "\<not> (0 < list_level it \<and> list_size it ! list_level it = 0)"
    and "\<not> (list_level it = 0 \<and> list_size it ! 0 = 0)"
    and "peek (file_p it) (addr it) 4 = Some (cstr ''LIST'')"
  shows "riff_file_data_chunk_iterator_next it
           = (case list_chunk it of Inl e \<Rightarrow> Inl e
              | Inr it1 \<Rightarrow> riff_file_data_chunk_iterator_next it1)"
proof -
  have c: "close_levels it = it" using assms(1) by (subst close_levels.simps) auto
  show ?thesis
    apply (subst riff_file_data_chunk_iterator_next.simps)
    using assms(2,3) apply (auto simp: c Let_def)
    done
qed

lemma enter_pos:
  assumes p: "pos bs ((c # r) # K) it"
    and s: "ser c = cstr ''LIST'' @ le32 m @ body" "length body = m"
    and d: "Suc (Suc (length K)) \<le> RIFF_FILE_NESTED_LIST_MAX_LEVELS"
  shows "\<exists>it3. list_enter it = Inr it3
           \<and> file_p it3 = file_p it \<and> addr it3 = addr it + 8
           \<and> list_level it3 = Suc (length K)
           \<and> length (list_size it3) = length (list_size it)
           \<and> list_start_cb it3 = list_start_cb it \<and> list_end_cb it3 = list_end_cb it
           \<and> out it3 = out it
           \<and> map unat (take (Suc (Suc (length K))) (list_size it3))
               = map (\<lambda>b. b + m) (budgets (r # K)) @ [m]"
proof -
  note t = pos_top [OF p]
  note f = pos_file [OF p]
  have sc: "length (ser c) = 8 + m" by (simp add: s)
  have m31: "m < 2 ^ 31" using t(5) f(4) sc by simp
  have m32: "m < 2 ^ 32" using m31 by simp
  have ln: "length (list_size it) = RIFF_FILE_NESTED_LIST_MAX_LEVELS"
    using p by (simp add: pos_def)
  define it0 where "it0 = it\<lparr>addr := addr it + 8\<rparr>"
  define it1 where "it1 = sub_all_lists it0 8"
  define it3 where "it3 = it1\<lparr>list_level := Suc (list_level it),
                               list_size := (list_size it1)[Suc (list_level it) := of_nat m]\<rparr>"
  have "take 4 (drop 4 (drop (addr it) bs)) = le32 m"
    unfolding t(4) s by simp
  then have "take 4 (drop (addr it + 4) bs) = le32 m"
    by (simp add: add.commute)
  then have pk: "peek (file_p it) (addr it + 4) 4 = Some (le32 m)"
    using t(5) sc by (simp add: f(1))
  have uc: "(ucast (rd_u32 (le32 m)) :: size_t) = of_nat m"
    by (simp add: rd_u32_le32 [OF m32] ucast_of_nat_32_64 [OF m32])
  have le: "list_enter it = Inr it3"
    using d pk uc t(1)
    by (simp add: list_enter_def Let_def it3_def it1_def it0_def)
  have l0: "list_level it0 < length (list_size it0)" using t(2) by (simp add: it0_def)
  have bud0: "map unat (take (Suc (list_level it0)) (list_size it0))
                = map (\<lambda>b. b + (8 + m)) (budgets (r # K))"
    using p by (simp add: pos_def t(1) budgets_Cons_Cons sc it0_def)
  note c1 = charge_add [OF l0 _ _ _ bud0, of 8 8, folded it1_def]
  have b1: "map unat (take (Suc (length K)) (list_size it1)) = map (\<lambda>b. b + m) (budgets (r # K))"
    and o1: "out it1 = out it"
    using c1(1) c1(3) by (simp_all add: it0_def t(1))
  have l1: "Suc (length K) < length (list_size it1)"
    using d ln by (simp add: it1_def it0_def)
  have um: "unat (of_nat m :: size_t) = m" using m31 by (simp add: unat_of_nat)
  have b3: "map unat (take (Suc (Suc (length K))) (list_size it3))
              = map (\<lambda>b. b + m) (budgets (r # K)) @ [m]"
    using take_Suc_update [OF l1, of "of_nat m"] b1 by (simp add: it3_def t(1) um)
  have "file_p it3 = file_p it" "addr it3 = addr it + 8" "list_level it3 = Suc (length K)"
    "length (list_size it3) = length (list_size it)"
    "list_start_cb it3 = list_start_cb it" "list_end_cb it3 = list_end_cb it" "out it3 = out it"
    using o1 by (simp_all add: it3_def it1_def it0_def t(1))
  with le b3 show ?thesis by blast
qed


lemma step_list:
  assumes p: "pos bs ((Lst t cs # r) # K) it"
    and w: "length t = 4" "t \<noteq> cstr ''movi''"
    and d: "Suc (Suc (length K)) \<le> RIFF_FILE_NESTED_LIST_MAX_LEVELS"
  shows "\<exists>it1. list_chunk it = Inr it1
           \<and> riff_file_data_chunk_iterator_next it = riff_file_data_chunk_iterator_next it1
           \<and> pos bs (cs # r # K) it1
           \<and> addr it1 = addr it + 12
           \<and> out it1 = out it @ [LIST_START (Suc (length K)) (addr it)
                                   (of_nat (4 + length (sers cs))) t]"
proof -
  let ?c = "Lst t cs"
  define m where "m = 4 + length (sers cs)"
  note t = pos_top [OF p]
  note f = pos_file [OF p]
  have s: "ser ?c = cstr ''LIST'' @ le32 m @ (t @ sers cs)" "length (t @ sers cs) = m"
    using w(1) by (simp_all add: m_def sers_def)
  have sc: "length (ser ?c) = 8 + m" unfolding s(1) using s(2) by simp
  have m32: "m < 2 ^ 32" using t(5) f(4) sc by simp
  from enter_pos [OF p s d] obtain it3 where
    e: "list_enter it = Inr it3" and
    f3: "file_p it3 = file_p it" "addr it3 = addr it + 8" "list_level it3 = Suc (length K)"
      "length (list_size it3) = length (list_size it)"
      "list_start_cb it3 = list_start_cb it" "list_end_cb it3 = list_end_cb it"
      "out it3 = out it" and
    b3: "map unat (take (Suc (Suc (length K))) (list_size it3))
               = map (\<lambda>b. b + m) (budgets (r # K)) @ [m]"
    by blast
  have cb: "list_start_cb it" "length (list_size it) = RIFF_FILE_NESTED_LIST_MAX_LEVELS"
    using p by (simp_all add: pos_def)
  have "take 8 (drop 4 (drop (addr it) bs)) = le32 m @ t"
    unfolding t(4) s using w(1) by simp
  then have "take 8 (drop (addr it + 4) bs) = le32 m @ t"
    by (simp add: add.commute)
  then have pk: "peek (file_p it) (addr it + 4) 8 = Some (le32 m @ t)"
    using t(5) sc by (simp add: f(1) m_def)
  have "take 4 (drop (addr it) bs) = cstr ''LIST''" unfolding t(4) s by simp
  then have pk4: "peek (file_p it) (addr it) 4 = Some (cstr ''LIST'')"
    using t(5) sc by (simp add: f(1))
  define it4 where "it4 = sub_all_lists (it3\<lparr>addr := addr it3 + 4\<rparr>) 4"
  define it5 where "it5 = it4\<lparr>out := out it4 @ [LIST_START (Suc (length K)) (addr it) (of_nat m) t]\<rparr>"
  have f4: "file_p it4 = file_p it" "addr it4 = addr it + 12" "list_level it4 = Suc (length K)"
      "length (list_size it4) = length (list_size it)"
      "list_start_cb it4 = list_start_cb it" "list_end_cb it4 = list_end_cb it"
    by (simp_all add: it4_def f3)
  have lc: "list_chunk it = Inr it5"
    using w cb(1)
    by (simp add: list_chunk_def e pk Let_def rd_u32_le32 [OF m32] it4_def [symmetric] f4 it5_def)
  have l3: "list_level (it3\<lparr>addr := addr it3 + 4\<rparr>) < length (list_size (it3\<lparr>addr := addr it3 + 4\<rparr>))"
    using d by (simp add: f3 cb(2))
  have bud3: "map unat (take (Suc (list_level (it3\<lparr>addr := addr it3 + 4\<rparr>)))
                          (list_size (it3\<lparr>addr := addr it3 + 4\<rparr>)))
                = map (\<lambda>b. b + m) (budgets (r # K)) @ [m]"
    using b3 by (simp add: f3)
  have g: "4 \<le> x" if "x \<in> set (map (\<lambda>b. b + m) (budgets (r # K)) @ [m])" for x
    using that by (auto simp: m_def)
  note c4 = charge_xs [OF l3 _ _ bud3 g, of 4, folded it4_def]
  have b4: "map unat (take (Suc (Suc (length K))) (list_size it4)) = budgets (cs # r # K)"
    using c4(1) by (simp add: f3 budgets_push [of cs] m_def)
  have o4: "out it4 = out it" using c4(3) by (simp add: f3)
  have "drop 12 (drop (addr it) bs) = sers cs @ sers r @ concat (map sers K)"
    unfolding t(4) s using w(1) by simp
  then have dr: "drop (addr it + 12) bs = concat (map sers (cs # r # K))"
    by (simp add: add.commute)
  have al: "addr it + 12 \<le> length bs" using t(5) sc by (simp add: m_def)
  have "pos bs (cs # r # K) it5"
    unfolding pos_def using p b4 dr al d by (simp add: it5_def f4 pos_def)
  moreover have "out it5 = out it @ [LIST_START (Suc (length K)) (addr it) (of_nat m) t]"
    by (simp add: it5_def o4)
  moreover have "riff_file_data_chunk_iterator_next it = riff_file_data_chunk_iterator_next it5"
    using next_list [OF t(6) t(7) pk4] by (simp add: lc)
  moreover have "addr it5 = addr it + 12" by (simp add: it5_def f4)
  ultimately show ?thesis using lc unfolding m_def by blast
qed


lemma step_movi:
  assumes p: "pos bs ((Movi q # r) # K) it"
    and d: "Suc (Suc (length K)) \<le> RIFF_FILE_NESTED_LIST_MAX_LEVELS"
  shows "\<exists>it1. list_chunk it = Inr it1
           \<and> riff_file_data_chunk_iterator_next it = riff_file_data_chunk_iterator_next it1
           \<and> pos bs ([] # r # K) it1
           \<and> addr it1 = addr it + length (ser (Movi q))
           \<and> out it1 = out it @ [LIST_START (Suc (length K)) (addr it)
                                   (of_nat (4 + length q)) (cstr ''movi'')]"
proof -
  let ?c = "Movi q"
  define m where "m = 4 + length q"
  note t = pos_top [OF p]
  note f = pos_file [OF p]
  have s: "ser ?c = cstr ''LIST'' @ le32 m @ (cstr ''movi'' @ q)" "length (cstr ''movi'' @ q) = m"
    by (simp_all add: m_def)
  have sc: "length (ser ?c) = 8 + m" unfolding s(1) using s(2) by simp
  have m31: "m < 2 ^ 31" using t(5) f(4) sc by simp
  have m32: "m < 2 ^ 32" using m31 by simp
  have um: "unat (of_nat m :: uint32_t) = m" using m32 by (simp add: unat_of_nat)
  from enter_pos [OF p s d] obtain it3 where
    e: "list_enter it = Inr it3" and
    f3: "file_p it3 = file_p it" "addr it3 = addr it + 8" "list_level it3 = Suc (length K)"
      "length (list_size it3) = length (list_size it)"
      "list_start_cb it3 = list_start_cb it" "list_end_cb it3 = list_end_cb it"
      "out it3 = out it" and
    b3: "map unat (take (Suc (Suc (length K))) (list_size it3))
               = map (\<lambda>b. b + m) (budgets (r # K)) @ [m]"
    by blast
  have cb: "list_start_cb it" "length (list_size it) = RIFF_FILE_NESTED_LIST_MAX_LEVELS"
    using p by (simp_all add: pos_def)
  have "take 8 (drop 4 (drop (addr it) bs)) = le32 m @ cstr ''movi''"
    unfolding t(4) s by simp
  then have "take 8 (drop (addr it + 4) bs) = le32 m @ cstr ''movi''"
    by (simp add: add.commute)
  then have pk: "peek (file_p it) (addr it + 4) 8 = Some (le32 m @ cstr ''movi'')"
    using t(5) sc by (simp add: f(1) m_def)
  have "take 4 (drop (addr it) bs) = cstr ''LIST''" unfolding t(4) s by simp
  then have pk4: "peek (file_p it) (addr it) 4 = Some (cstr ''LIST'')"
    using t(5) sc by (simp add: f(1))
  define it4 where "it4 = sub_all_lists (it3\<lparr>addr := addr it3 + m\<rparr>) (of_nat m)"
  define it5 where "it5 = it4\<lparr>out := out it4 @ [LIST_START (Suc (length K)) (addr it) (of_nat m)
                                                  (cstr ''movi'')]\<rparr>"
  have f4: "file_p it4 = file_p it" "addr it4 = addr it + 8 + m" "list_level it4 = Suc (length K)"
      "length (list_size it4) = length (list_size it)"
      "list_start_cb it4 = list_start_cb it" "list_end_cb it4 = list_end_cb it"
    by (simp_all add: it4_def f3)
  have lc: "list_chunk it = Inr it5"
    using cb(1)
    by (simp add: list_chunk_def e pk Let_def rd_u32_le32 [OF m32] um it4_def f3 it5_def)
  have l3: "list_level (it3\<lparr>addr := addr it3 + m\<rparr>) < length (list_size (it3\<lparr>addr := addr it3 + m\<rparr>))"
    using d by (simp add: f3 cb(2))
  have bud3: "map unat (take (Suc (list_level (it3\<lparr>addr := addr it3 + m\<rparr>)))
                          (list_size (it3\<lparr>addr := addr it3 + m\<rparr>)))
                = map (\<lambda>b. b + m) (budgets (r # K)) @ [m]"
    using b3 by (simp add: f3)
  have g: "m \<le> x" if "x \<in> set (map (\<lambda>b. b + m) (budgets (r # K)) @ [m])" for x
    using that by auto
  note c4 = charge_xs [OF l3 refl m31 bud3 g, folded it4_def]
  have b4: "map unat (take (Suc (Suc (length K))) (list_size it4)) = budgets ([] # r # K)"
    using c4(1) by (simp add: f3 budgets_pop comp_def)
  have o4: "out it4 = out it" using c4(3) by (simp add: f3)
  have "drop (length (ser ?c)) (drop (addr it) bs) = sers r @ concat (map sers K)"
    unfolding t(4) by simp
  then have dr: "drop (addr it + 8 + m) bs = concat (map sers ([] # r # K))"
    by (simp add: add.commute add.left_commute m_def)
  have al: "addr it + 8 + m \<le> length bs" using t(5) sc by simp
  have "pos bs ([] # r # K) it5"
    unfolding pos_def using p b4 dr al d by (simp add: it5_def f4 pos_def)
  moreover have "out it5 = out it @ [LIST_START (Suc (length K)) (addr it) (of_nat m) (cstr ''movi'')]"
    by (simp add: it5_def o4)
  moreover have "riff_file_data_chunk_iterator_next it = riff_file_data_chunk_iterator_next it5"
    using next_list [OF t(6) t(7) pk4] by (simp add: lc)
  moreover have "addr it5 = addr it + length (ser ?c)"
    by (simp add: it5_def f4 m_def)
  ultimately show ?thesis using lc unfolding m_def by blast
qed

lemma step_pop:
  assumes p: "pos bs ([] # r # K) it"
  shows "riff_file_data_chunk_iterator_next it
           = riff_file_data_chunk_iterator_next
               (it\<lparr>out := out it @ [LIST_END (Suc (length K))], list_level := length K\<rparr>)"
    and "pos bs (r # K) (it\<lparr>out := out it @ [LIST_END (Suc (length K))], list_level := length K\<rparr>)"
proof -
  from p have lv: "list_level it = Suc (length K)" and cb: "list_end_cb it"
    and ln: "length (list_size it) = RIFF_FILE_NESTED_LIST_MAX_LEVELS"
    and lk: "Suc (Suc (length K)) \<le> RIFF_FILE_NESTED_LIST_MAX_LEVELS"
    and bu: "map unat (take (Suc (Suc (length K))) (list_size it)) = budgets (r # K) @ [0]"
    by (simp_all add: pos_def budgets_pop)
  have "map unat (take (Suc (Suc (length K))) (list_size it)) ! Suc (length K) = 0"
    unfolding bu by (simp add: nth_append)
  then have z: "list_size it ! list_level it = 0"
    using lk ln by (simp add: lv unat_eq_0)
  show "riff_file_data_chunk_iterator_next it
           = riff_file_data_chunk_iterator_next
               (it\<lparr>out := out it @ [LIST_END (Suc (length K))], list_level := length K\<rparr>)"
    using next_pop [of it] z cb by (simp add: lv)
  have "take (Suc (length K)) (map unat (take (Suc (Suc (length K))) (list_size it)))
          = budgets (r # K)"
    unfolding bu by simp
  then have b: "map unat (take (Suc (length K)) (list_size it)) = budgets (r # K)"
    by (simp add: take_map min_def)
  show "pos bs (r # K) (it\<lparr>out := out it @ [LIST_END (Suc (length K))], list_level := length K\<rparr>)"
    using p b by (simp add: pos_def)
qed

lemma step_eos:
  assumes p: "pos bs [[]] it"
  shows "riff_file_data_chunk_iterator_next it = Inr (None, it)"
proof -
  from p have lv: "list_level it = 0"
    and ln: "length (list_size it) = RIFF_FILE_NESTED_LIST_MAX_LEVELS"
    and bu: "map unat (take (Suc 0) (list_size it)) = [0]"
    by (simp_all add: pos_def budgets_pop budgets.simps)
  have "list_size it \<noteq> []" using ln by (auto simp: RIFF_FILE_NESTED_LIST_MAX_LEVELS_def)
  then have "list_size it ! 0 = 0"
    using bu by (cases "list_size it") (simp_all add: unat_eq_0)
  with lv show ?thesis by (rule next_at_end)
qed


lemma kev_leaf:
  "kev a ((Leaf i q # r) # K)
     = CHUNK (length K) a i (of_nat (length q)) # kev (a + length (ser (Leaf i q))) (r # K)"
  by (simp add: add.assoc)

lemma kev_list:
  "length t = 4 \<Longrightarrow>
   kev a ((Lst t cs # r) # K)
     = LIST_START (Suc (length K)) a (of_nat (4 + length (sers cs))) t
         # kev (a + 12) (cs # r # K)"
  by (simp add: add.assoc sers_def add.commute add.left_commute)

lemma kev_movi:
  "kev a ((Movi q # r) # K)
     = LIST_START (Suc (length K)) a (of_nat (4 + length q)) (cstr ''movi'')
         # kev (a + length (ser (Movi q))) ([] # r # K)"
  by (simp add: add.assoc)

lemma kev_pop: "kev a ([] # r # K) = LIST_END (Suc (length K)) # kev a (r # K)"
  by simp

lemma weight_simps:
  "weight ((Leaf i q # r) # K) = Suc (weight (r # K))"
  "weight ((Lst t cs # r) # K) = Suc (weight (cs # r # K))"
  "weight ((Movi q # r) # K) = Suc (weight ([] # r # K))"
  "weight ([] # K) = Suc (weight K)"
  by (simp_all add: weight_def)

lemma main_loop_cong:
  "riff_file_data_chunk_iterator_next it = riff_file_data_chunk_iterator_next it2 \<Longrightarrow>
   main_loop it = main_loop it2"
  by (simp only: main_loop.simps [of it] main_loop.simps [of it2])

lemma pos_out [simp]: "pos bs K (it\<lparr>out := x\<rparr>) = pos bs K it"
  by (simp add: pos_def)

lemma traverse_pos:
  assumes "pos bs K it" and "wf_stack K"
  shows "\<exists>it'. main_loop it = Inr it' \<and> out it' = out it @ kev (addr it) K @ [EOF]"
  using assms
proof (induction "weight K" arbitrary: K it rule: less_induct)
  case less
  from less.prems(1) have "K \<noteq> []" by (simp add: pos_def)
  then obtain r K1 where K: "K = r # K1" by (cases K) auto
  show ?case
  proof (cases r)
    case Nil
    show ?thesis
    proof (cases K1)
      case Nil
      have "riff_file_data_chunk_iterator_next it = Inr (None, it)"
        using less.prems(1) unfolding K \<open>r = []\<close> \<open>K1 = []\<close> by (rule step_eos)
      then show ?thesis
        by (simp add: main_loop.simps [of it] K \<open>r = []\<close> \<open>K1 = []\<close>)
    next
      case (Cons r1 K2)
      let ?it2 = "it\<lparr>out := out it @ [LIST_END (Suc (length K2))], list_level := length K2\<rparr>"
      have p: "pos bs ([] # r1 # K2) it" using less.prems(1) unfolding K Nil Cons .
      have m: "main_loop it = main_loop ?it2"
        by (rule main_loop_cong) (rule step_pop(1) [OF p])
      have w: "weight (r1 # K2) < weight K" unfolding K Nil Cons by (simp add: weight_simps)
      have "wf_stack (r1 # K2)" using less.prems(2) unfolding K Nil Cons by simp
      from less.hyps [OF w step_pop(2) [OF p] this]
      show ?thesis unfolding m K Nil Cons by (simp add: kev_pop)
    qed
  next
    case (Cons c r0)
    have p: "pos bs ((c # r0) # K1) it" using less.prems(1) unfolding K Cons .
    have wc: "wf_chunk (length K1) c" and wr: "wf_stack (r0 # K1)"
      using less.prems(2) unfolding K Cons by simp_all
    show ?thesis
    proof (cases c)
      case (Leaf i q)
      from step_leaf [OF p [unfolded Leaf]] wc obtain it1 where
        n: "riff_file_data_chunk_iterator_next it = Inr (Some (addr it), it1)"
        and p1: "pos bs (r0 # K1) it1" and o1: "out it1 = out it"
        and l1: "list_level it1 = length K1"
        and i1: "subchunk_id (file_p it1) (addr it) = i"
        and s1: "subchunk_size (file_p it1) (addr it) = of_nat (length q)"
        and a1: "addr it1 = addr it + length (ser (Leaf i q))"
        unfolding Leaf by auto
      let ?it2 = "it1\<lparr>out := out it1 @ [CHUNK (length K1) (addr it) i (of_nat (length q))]\<rparr>"
      have m: "main_loop it = main_loop ?it2"
        by (simp add: main_loop.simps [of it] n l1 i1 s1
              riff_file_data_chunk_iterator_get_list_level_def)
      have w: "weight (r0 # K1) < weight K" unfolding K Cons Leaf by (simp add: weight_simps)
      have p2: "pos bs (r0 # K1) ?it2" using p1 by simp
      from less.hyps [OF w p2 wr]
      show ?thesis unfolding m K Cons Leaf kev_leaf by (simp add: o1 a1)
    next
      case (Lst t cs)
      have wl: "length t = 4" "t \<noteq> cstr ''movi''"
        "Suc (Suc (length K1)) \<le> RIFF_FILE_NESTED_LIST_MAX_LEVELS"
        "list_all (wf_chunk (Suc (length K1))) cs"
        using wc unfolding Lst by simp_all
      from step_list [OF p [unfolded Lst] wl(1,2,3)] obtain it1 where
        n: "riff_file_data_chunk_iterator_next it = riff_file_data_chunk_iterator_next it1"
        and p1: "pos bs (cs # r0 # K1) it1"
        and a1: "addr it1 = addr it + 12"
        and o1: "out it1 = out it @ [LIST_START (Suc (length K1)) (addr it)
                                   (of_nat (4 + length (sers cs))) t]"
        by blast
      have m: "main_loop it = main_loop it1" using n by (rule main_loop_cong)
      have w: "weight (cs # r0 # K1) < weight K" unfolding K Cons Lst by (simp add: weight_simps)
      have w2: "wf_stack (cs # r0 # K1)" using wl(4) wr by simp
      from less.hyps [OF w p1 w2]
      show ?thesis unfolding m K Cons Lst kev_list [OF wl(1)] by (simp add: o1 a1)
    next
      case (Movi q)
      have d: "Suc (Suc (length K1)) \<le> RIFF_FILE_NESTED_LIST_MAX_LEVELS"
        using wc unfolding Movi by simp
      from step_movi [OF p [unfolded Movi] d] obtain it1 where
        n: "riff_file_data_chunk_iterator_next it = riff_file_data_chunk_iterator_next it1"
        and p1: "pos bs ([] # r0 # K1) it1"
        and a1: "addr it1 = addr it + length (ser (Movi q))"
        and o1: "out it1 = out it @ [LIST_START (Suc (length K1)) (addr it)
                                   (of_nat (4 + length q)) (cstr ''movi'')]"
        by blast
      have m: "main_loop it = main_loop it1" using n by (rule main_loop_cong)
      have w: "weight ([] # r0 # K1) < weight K" unfolding K Cons Movi by (simp add: weight_simps)
      have w2: "wf_stack ([] # r0 # K1)" using wr by simp
      from less.hyps [OF w p1 w2]
      show ?thesis unfolding m K Cons Movi kev_movi by (simp add: o1 a1)
    qed
  qed
qed

section \<open>The traversal of a well-formed file\<close>

lemma pos_new:
  assumes "length sz = 4" and "length fmt = 4" and "length (riff_file sz fmt cs) < 2 ^ 31"
  shows "riff_file_data_chunk_iterator_new
           (fst (riff_file_open (env_of (riff_file sz fmt cs) a) fmt os_init)) True True
           [0, 0, 0, 0, 0, 0, 0, 0, 0]
         = Some \<lparr> file_p = file_of (riff_file sz fmt cs) a, addr = 12, list_level = 0,
                  list_size = [of_nat (length (sers cs)), 0, 0, 0, 0, 0, 0, 0, 0, 0],
                  list_start_cb = True, list_end_cb = True, out = [] \<rparr>"
    and "pos (riff_file sz fmt cs) [cs]
           \<lparr> file_p = file_of (riff_file sz fmt cs) a, addr = 12, list_level = 0,
             list_size = [of_nat (length (sers cs)), 0, 0, 0, 0, 0, 0, 0, 0, 0],
             list_start_cb = True, list_end_cb = True, out = [] \<rparr>"
proof -
  define bs where "bs = riff_file sz fmt cs"
  from assms have l: "length sz = 4" "length fmt = 4" and b: "length bs < 2 ^ 31"
    by (simp_all add: bs_def)
  have len: "length bs = 12 + length (sers cs)"
    using l by (simp add: bs_def riff_file_def)
  have hd: "take 4 bs = cstr ''RIFF''" "take 4 (drop 8 bs) = fmt" "drop 12 bs = sers cs"
    using l by (simp_all add: bs_def riff_file_def)
  have b63: "length bs < 2 ^ 63" using b by simp
  have op: "fst (riff_file_open (env_of bs a) fmt os_init) = Some (file_of bs a)"
    using riff_file_open_ok [OF _ b63 hd(1,2), of a] len by simp
  have "(of_nat (length bs) :: size_t) - 12 = of_nat (length (sers cs))"
    unfolding len by simp
  then show "riff_file_data_chunk_iterator_new
           (fst (riff_file_open (env_of (riff_file sz fmt cs) a) fmt os_init)) True True
           [0, 0, 0, 0, 0, 0, 0, 0, 0]
         = Some \<lparr> file_p = file_of (riff_file sz fmt cs) a, addr = 12, list_level = 0,
                  list_size = [of_nat (length (sers cs)), 0, 0, 0, 0, 0, 0, 0, 0, 0],
                  list_start_cb = True, list_end_cb = True, out = [] \<rparr>"
    unfolding bs_def [symmetric] op
    by (simp add: riff_file_data_chunk_iterator_new_def file_of_def)
  have u: "unat (of_nat (length (sers cs)) :: size_t) = length (sers cs)"
    using b len by (simp add: unat_of_nat)
  show "pos (riff_file sz fmt cs) [cs]
           \<lparr> file_p = file_of (riff_file sz fmt cs) a, addr = 12, list_level = 0,
             list_size = [of_nat (length (sers cs)), 0, 0, 0, 0, 0, 0, 0, 0, 0],
             list_start_cb = True, list_end_cb = True, out = [] \<rparr>"
    unfolding bs_def [symmetric]
    using b len hd(3) u
    by (simp add: pos_def file_of_def budgets.simps RIFF_FILE_NESTED_LIST_MAX_LEVELS_def)
qed

lemma run_file_tree:
  assumes "wf_file sz fmt cs" and "length (riff_file sz fmt cs) < 2 ^ 31"
  shows "run_file (riff_file sz fmt cs) fmt = Some (Inr (evss 0 12 cs @ [EOF]))"
proof -
  from assms(1) have a: "length sz = 4" "length fmt = 4"
    by (simp_all add: wf_file_def)
  note n = pos_new [OF a assms(2), of 4096]
  have w: "wf_stack [cs]" using assms(1) by (simp add: wf_file_def)
  from traverse_pos [OF n(2) w] show ?thesis
    by (auto simp: run_file_def n(1))
qed


lemma ptrs_append [simp]: "ptrs (xs @ ys) = ptrs xs @ ptrs ys"
  by (induction xs rule: ptrs.induct) simp_all

lemma nest_append:
  "nest d (xs @ ys) = (case nest d xs of None \<Rightarrow> None | Some d' \<Rightarrow> nest d' ys)"
  by (induction d xs rule: nest.induct) simp_all

lemma nest_evs:
  "nest d (evs d a c) = Some d" "nest d (evss d a cs) = Some d"
  by (induction d a c and d a cs rule: evs_evss.induct) (simp_all add: nest_append)

lemma ptrs_bounds:
  "wf_chunk d c \<Longrightarrow> p \<in> set (ptrs (evs d a c)) \<Longrightarrow> a \<le> p \<and> p < a + length (ser c)"
  "list_all (wf_chunk d) cs \<Longrightarrow> p \<in> set (ptrs (evss d a cs)) \<Longrightarrow> a \<le> p \<and> p < a + length (sers cs)"
proof (induction d a c and d a cs arbitrary: p and p rule: evs_evss.induct)
  case (2 d a t cs)
  then show ?case by (fastforce simp: sers_def)
next
  case (5 d a c cs)
  then show ?case by fastforce
qed auto

lemma ptrs_sorted:
  "wf_chunk d c \<Longrightarrow> sorted_wrt (<) (ptrs (evs d a c))"
  "list_all (wf_chunk d) cs \<Longrightarrow> sorted_wrt (<) (ptrs (evss d a cs))"
proof (induction d a c and d a cs rule: evs_evss.induct)
  case (2 d a t cs)
  then show ?case using ptrs_bounds(2) [of "Suc d" cs _ "a + 12"] by fastforce
next
  case (5 d a c cs)
  then show ?case
    using ptrs_bounds(1) [of d c _ a] ptrs_bounds(2) [of d cs _ "a + length (ser c)"]
    by (fastforce simp: sorted_wrt_append)
qed auto


lemma step_assert:
  assumes p: "pos bs ((c # r) # K) it"
    and s: "take 4 (ser c) = cstr ''LIST''"
    and d: "length K = 9"
  shows "riff_file_data_chunk_iterator_next it = Inl ASSERT_LIST_LEVEL"
proof -
  note t = pos_top [OF p]
  note f = pos_file [OF p]
  have "take 4 (drop (addr it) bs) = cstr ''LIST''"
    unfolding t(4) using s length_ser_ge [of c] by simp
  then have pk4: "peek (file_p it) (addr it) 4 = Some (cstr ''LIST'')"
    using t(5) length_ser_ge [of c] by (simp add: f(1))
  have "list_enter it = Inl ASSERT_LIST_LEVEL"
    by (simp add: list_enter_def Let_def t(1) d RIFF_FILE_NESTED_LIST_MAX_LEVELS_def)
  then have "list_chunk it = Inl ASSERT_LIST_LEVEL"
    by (simp add: list_chunk_def)
  then show ?thesis using next_list [OF t(6) t(7) pk4] by simp
qed

lemma deep_assert:
  assumes "pos bs (deep (Suc n) # K) it" and "9 \<le> length K + n"
  shows "main_loop it = Inl ASSERT_LIST_LEVEL"
  using assms
proof (induction n arbitrary: K it)
  case 0
  then have p: "pos bs ((Lst (cstr ''lst '') [] # []) # K) it" and k: "9 \<le> length K" by simp_all
  from p have "Suc (length K) \<le> 10"
    by (simp add: pos_def RIFF_FILE_NESTED_LIST_MAX_LEVELS_def)
  with k have "length K = 9" by simp
  from step_assert [OF p _ this] show ?case
    by (simp add: main_loop.simps [of it])
next
  case (Suc n)
  let ?c = "Lst (cstr ''lst '') (deep (Suc n))"
  from Suc.prems have p: "pos bs ((?c # []) # K) it" by simp
  from p have le: "Suc (length K) \<le> 10"
    by (simp add: pos_def RIFF_FILE_NESTED_LIST_MAX_LEVELS_def)
  show ?case
  proof (cases "length K = 9")
    case True
    from step_assert [OF p _ True] show ?thesis
      by (simp add: main_loop.simps [of it])
  next
    case False
    with le have d: "Suc (Suc (length K)) \<le> RIFF_FILE_NESTED_LIST_MAX_LEVELS"
      by (simp add: RIFF_FILE_NESTED_LIST_MAX_LEVELS_def)
    from step_list [OF p _ _ d] obtain it1 where
      n: "riff_file_data_chunk_iterator_next it = riff_file_data_chunk_iterator_next it1"
      and p1: "pos bs (deep (Suc n) # [] # K) it1"
      by (auto simp: cstr_def)
    have "main_loop it = main_loop it1" using n by (rule main_loop_cong)
    moreover have "main_loop it1 = Inl ASSERT_LIST_LEVEL"
      using Suc.IH [OF p1] Suc.prems(2) by simp
    ultimately show ?thesis by simp
  qed
qed

section \<open>Every call of a traversal stands at a position\<close>








section \<open>What the loop of calls adds to the output, on any file\<close>

lemma nest_underflows: "list_all is_underflow us \<Longrightarrow> nest d us = Some d"
  by (induction d us rule: nest.induct) simp_all

lemma ptrs_underflows: "list_all is_underflow us \<Longrightarrow> ptrs us = []"
  by (induction us rule: ptrs.induct) simp_all

lemma sub_list_out:
  "\<exists>us. out (sub_list len i it) = out it @ us \<and> list_all is_underflow us"
  by (simp add: sub_list_def)

lemma fold_sub_list_out:
  "\<exists>us. out (fold (sub_list len) js it) = out it @ us \<and> list_all is_underflow us"
proof (induction js arbitrary: it)
  case Nil
  then show ?case by simp
next
  case (Cons j js)
  from sub_list_out [of len j it] obtain u1 where
    1: "out (sub_list len j it) = out it @ u1" "list_all is_underflow u1" by blast
  from Cons [of "sub_list len j it"] obtain u2 where
    2: "out (fold (sub_list len) js (sub_list len j it)) = out (sub_list len j it) @ u2"
       "list_all is_underflow u2" by blast
  have "out (fold (sub_list len) (j # js) it) = out it @ (u1 @ u2)"
    using 1 2 by simp
  moreover have "list_all is_underflow (u1 @ u2)" using 1 2 by simp
  ultimately show ?case by blast
qed

lemma sub_all_lists_out:
  "\<exists>us. out (sub_all_lists it len) = out it @ us \<and> list_all is_underflow us"
  unfolding sub_all_lists_def by (rule fold_sub_list_out)

text \<open>The list ends that the loop at the head of next emits.\<close>

lemma close_levels_out:
  assumes "list_end_cb it"
  shows "\<exists>es. out (close_levels it) = out it @ es \<and> ptrs es = []
              \<and> nest (list_level it) es = Some (list_level (close_levels it))"
  using assms
proof (induction it rule: close_levels.induct)
  case (1 it)
  show ?case
  proof (cases "list_level it > 0 \<and> list_size it ! list_level it = 0")
    case True
    let ?it2 = "it\<lparr>out := (if list_end_cb it then out it @ [LIST_END (list_level it)] else out it),
                    list_level := list_level it - 1\<rparr>"
    have c: "close_levels it = close_levels ?it2"
      using True by (subst close_levels.simps) simp
    from "1.IH" [OF True] "1.prems" obtain es where
      e: "out (close_levels ?it2) = out ?it2 @ es" "ptrs es = []"
         "nest (list_level ?it2) es = Some (list_level (close_levels ?it2))"
      by auto
    have "out (close_levels it) = out it @ (LIST_END (list_level it) # es)"
      using e(1) "1.prems" by (simp add: c)
    moreover have "ptrs (LIST_END (list_level it) # es) = []" using e(2) by simp
    moreover have "nest (list_level it) (LIST_END (list_level it) # es)
                     = Some (list_level (close_levels it))"
      using e(3) True by (simp add: c)
    ultimately show ?thesis by blast
  next
    case False
    then have "close_levels it = it" by (subst close_levels.simps) auto
    then show ?thesis by simp
  qed
qed

lemma list_enter_out:
  assumes "list_enter it = Inr it3"
  shows "\<exists>us. out it3 = out it @ us \<and> list_all is_underflow us"
    and "list_level it3 = Suc (list_level it)"
    and "list_start_cb it3 = list_start_cb it" and "list_end_cb it3 = list_end_cb it"
proof -
  define it1 where "it1 = sub_all_lists (it\<lparr>addr := addr it + 8\<rparr>) 8"
  from assms obtain sz where
    it3: "it3 = it1\<lparr>list_level := Suc (list_level it1),
                    list_size := (list_size it1)[Suc (list_level it1) := ucast (rd_u32 sz)]\<rparr>"
    by (auto simp: list_enter_def Let_def it1_def split: if_splits option.splits)
  from sub_all_lists_out [of "it\<lparr>addr := addr it + 8\<rparr>" 8]
  show "\<exists>us. out it3 = out it @ us \<and> list_all is_underflow us"
    by (simp add: it3 it1_def)
  show "list_level it3 = Suc (list_level it)" by (simp add: it3 it1_def)
  show "list_start_cb it3 = list_start_cb it" by (simp add: it3 it1_def)
  show "list_end_cb it3 = list_end_cb it" by (simp add: it3 it1_def)
qed

lemma list_chunk_out:
  assumes "list_chunk it = Inr it5" and "list_start_cb it"
  shows "\<exists>us sz ty. out it5 = out it @ us @ [LIST_START (Suc (list_level it)) (addr it) sz ty]
                   \<and> list_all is_underflow us"
    and "list_level it5 = Suc (list_level it)"
    and "list_start_cb it5" and "list_end_cb it5 = list_end_cb it"
proof -
  from assms(1) obtain it3 hdr where
    e: "list_enter it = Inr it3" and
    it5: "it5 = (let sz = rd_u32 (take 4 hdr); ty = drop 4 hdr;
                   it4 = (if ty = cstr ''movi''
                          then sub_all_lists (it3\<lparr>addr := addr it3 + unat sz\<rparr>) sz
                          else sub_all_lists (it3\<lparr>addr := addr it3 + 4\<rparr>) 4)
               in (if list_start_cb it4
                       then it4\<lparr>out := out it4 @ [LIST_START (list_level it4) (addr it) sz ty]\<rparr>
                       else it4))"
    by (auto simp: list_chunk_def Let_def split: sum.splits option.splits)
  define sz where "sz = rd_u32 (take 4 hdr)"
  define ty where "ty = drop 4 hdr"
  define it4 where "it4 = (if ty = cstr ''movi''
                          then sub_all_lists (it3\<lparr>addr := addr it3 + unat sz\<rparr>) sz
                          else sub_all_lists (it3\<lparr>addr := addr it3 + 4\<rparr>) 4)"
  note f = list_enter_out [OF e]
  have l4: "list_level it4 = Suc (list_level it)" and s4: "list_start_cb it4"
    and e4: "list_end_cb it4 = list_end_cb it"
    using f(2-4) assms(2) by (simp_all add: it4_def)
  have "\<exists>us. out it4 = out it3 @ us \<and> list_all is_underflow us"
    using sub_all_lists_out [of "it3\<lparr>addr := addr it3 + unat sz\<rparr>" sz]
          sub_all_lists_out [of "it3\<lparr>addr := addr it3 + 4\<rparr>" 4]
    by (simp add: it4_def)
  then obtain u2 where u2: "out it4 = out it3 @ u2" "list_all is_underflow u2" by blast
  from f(1) obtain u1 where u1: "out it3 = out it @ u1" "list_all is_underflow u1" by blast
  have 5: "it5 = it4\<lparr>out := out it4 @ [LIST_START (list_level it4) (addr it) sz ty]\<rparr>"
    using s4 unfolding it5 Let_def sz_def [symmetric] ty_def [symmetric] it4_def [symmetric]
    by simp
  have "out it5 = out it @ (u1 @ u2) @ [LIST_START (Suc (list_level it)) (addr it) sz ty]"
    by (simp add: 5 u1 u2 l4)
  moreover have "list_all is_underflow (u1 @ u2)" using u1 u2 by simp
  ultimately show "\<exists>us sz ty. out it5 = out it @ us @ [LIST_START (Suc (list_level it)) (addr it) sz ty]
                   \<and> list_all is_underflow us" by blast
  show "list_level it5 = Suc (list_level it)" by (simp add: 5 l4)
  show "list_start_cb it5" by (simp add: 5 s4)
  show "list_end_cb it5 = list_end_cb it" by (simp add: 5 e4)
qed

lemma info_marker_out:
  shows "\<exists>us. out (info_marker it) = out it @ us \<and> list_all is_underflow us"
    and "list_level (info_marker it) = list_level it"
    and "list_start_cb (info_marker it) = list_start_cb it"
    and "list_end_cb (info_marker it) = list_end_cb it"
    and "addr (info_marker it) = addr it + 4"
  using sub_all_lists_out [of "it\<lparr>addr := addr it + 4\<rparr>" 4]
  by (simp_all add: info_marker_def)

lemma data_subchunk_out:
  assumes "data_subchunk it = Inr it2"
  shows "\<exists>us. out it2 = out it @ us \<and> list_all is_underflow us"
    and "list_level it2 = list_level it"
    and "list_start_cb it2 = list_start_cb it"
    and "list_end_cb it2 = list_end_cb it"
proof -
  define it1 where "it1 = sub_all_lists (it\<lparr>addr := addr it + 8\<rparr>) 8"
  from assms obtain sz where
    2: "it2 = sub_all_lists (it1\<lparr>addr := addr it1 + unat (rd_u32 sz)\<rparr>) (rd_u32 sz)"
    by (auto simp: data_subchunk_def Let_def it1_def split: option.splits)
  from sub_all_lists_out [of "it\<lparr>addr := addr it + 8\<rparr>" 8] obtain u1 where
    u1: "out it1 = out it @ u1" "list_all is_underflow u1" by (auto simp: it1_def)
  from sub_all_lists_out [of "it1\<lparr>addr := addr it1 + unat (rd_u32 sz)\<rparr>" "rd_u32 sz"] obtain u2 where
    u2: "out it2 = out it1 @ u2" "list_all is_underflow u2" by (auto simp: 2)
  have "out it2 = out it @ (u1 @ u2)" "list_all is_underflow (u1 @ u2)" using u1 u2 by simp_all
  then show "\<exists>us. out it2 = out it @ us \<and> list_all is_underflow us" by blast
  show "list_level it2 = list_level it" by (simp add: 2 it1_def)
  show "list_start_cb it2 = list_start_cb it" by (simp add: 2 it1_def)
  show "list_end_cb it2 = list_end_cb it" by (simp add: 2 it1_def)
qed

text \<open>One call.\<close>

lemma next_adds:
  assumes "riff_file_data_chunk_iterator_next it0 = Inr (x, it')"
      and "list_start_cb it0" and "list_end_cb it0"
  shows "\<exists>es. call_adds it0 it' es \<and> (\<forall>c. x = Some c \<longrightarrow> list_all (\<lambda>p. p < c) (ptrs es))
              \<and> addr it0 \<le> addr it'"
  using assms
proof (induction it0 rule: next_induct)
  case (Eos it0 it)
  from close_levels_out [OF Eos.prems(3)] obtain es where
    es: "out (close_levels it0) = out it0 @ es" "ptrs es = []"
        "nest (list_level it0) es = Some (list_level (close_levels it0))" by blast
  have i: "it' = it" "x = None" using Eos by auto
  have "call_adds it0 it' es"
    using es Eos.prems(2,3) by (simp add: call_adds_def i Eos.hyps(1))
  then show ?case by (auto simp: i Eos.hyps(1))
next
  case (List it0 it it1)
  from close_levels_out [OF List.prems(3)] obtain e0 where
    e0: "out it = out it0 @ e0" "ptrs e0 = []"
        "nest (list_level it0) e0 = Some (list_level it)" unfolding List.hyps(1) by blast
  have cb: "list_start_cb it" "list_end_cb it" using List.prems(2,3) by (simp_all add: List.hyps(1))
  note lc = list_chunk_out [OF List.hyps(4) cb(1)]
  from lc(1) obtain us sz ty where
    e1: "out it1 = out it @ us @ [LIST_START (Suc (list_level it)) (addr it) sz ty]"
        "list_all is_underflow us" by blast
  have n: "riff_file_data_chunk_iterator_next it1 = Inr (x, it')"
    using List.hyps(5) List.prems(1) by simp
  from List.IH [OF n lc(3)] lc(4) cb(2) obtain e2 where
    e2: "call_adds it1 it' e2" "\<forall>c. x = Some c \<longrightarrow> list_all (\<lambda>p. p < c) (ptrs e2)"
        "addr it1 \<le> addr it'" by auto
  have a: "addr it + 8 \<le> addr it1" using list_chunk_fields(2) [OF List.hyps(4)] .
  define es where
    "es = e0 @ us @ [LIST_START (Suc (list_level it)) (addr it) sz ty] @ e2"
  have o: "out it' = out it0 @ es"
    using e2(1) e1(1) e0(1) by (simp add: call_adds_def es_def)
  have p: "ptrs es = addr it # ptrs e2"
    by (simp add: es_def ptrs_append e0(2) ptrs_underflows [OF e1(2)])
  have nst: "nest (list_level it0) es = Some (list_level it')"
    using e2(1)
    by (simp add: es_def nest_append e0(3) nest_underflows [OF e1(2)] call_adds_def lc(2))
  have b: "list_all (\<lambda>p. addr it1 \<le> p \<and> p < addr it') (ptrs e2)" and s: "sorted_wrt (<) (ptrs e2)"
    and c: "list_start_cb it'" "list_end_cb it'"
    using e2(1) by (simp_all add: call_adds_def)
  have s2: "sorted_wrt (<) (ptrs es)"
    using s b a by (auto simp: p list_all_iff)
  have b2: "list_all (\<lambda>p. addr it0 \<le> p \<and> p < addr it') (ptrs es)"
    using b a e2(3) by (auto simp: p list_all_iff List.hyps(1))
  have "call_adds it0 it' es"
    unfolding call_adds_def using o nst s2 b2 c by simp
  moreover have "\<forall>c. x = Some c \<longrightarrow> list_all (\<lambda>p. p < c) (ptrs es)"
  proof (intro allI impI)
    fix c assume x: "x = Some c"
    have "addr it1 \<le> c" using next_result_Some [of it1 c it'] n x by simp
    then show "list_all (\<lambda>p. p < c) (ptrs es)" using e2(2) x a by (simp add: p)
  qed
  ultimately show ?case using e2(3) a by (auto simp: List.hyps(1))
next
  case (Info it0 it)
  from close_levels_out [OF Info.prems(3)] obtain e0 where
    e0: "out it = out it0 @ e0" "ptrs e0 = []"
        "nest (list_level it0) e0 = Some (list_level it)" unfolding Info.hyps(1) by blast
  have cb: "list_start_cb it" "list_end_cb it" using Info.prems(2,3) by (simp_all add: Info.hyps(1))
  note im = info_marker_out [of it]
  from im(1) obtain us where
    e1: "out (info_marker it) = out it @ us" "list_all is_underflow us" by blast
  have n: "riff_file_data_chunk_iterator_next (info_marker it) = Inr (x, it')"
    using Info.hyps(4) Info.prems(1) by simp
  from Info.IH [OF n] im(3,4) cb obtain e2 where
    e2: "call_adds (info_marker it) it' e2" "\<forall>c. x = Some c \<longrightarrow> list_all (\<lambda>p. p < c) (ptrs e2)"
        "addr (info_marker it) \<le> addr it'" by auto
  define es where "es = e0 @ us @ e2"
  have o: "out it' = out it0 @ es"
    using e2(1) e1(1) e0(1) by (simp add: call_adds_def es_def)
  have p: "ptrs es = ptrs e2"
    by (simp add: es_def ptrs_append e0(2) ptrs_underflows [OF e1(2)])
  have nst: "nest (list_level it0) es = Some (list_level it')"
    using e2(1)
    by (simp add: es_def nest_append e0(3) nest_underflows [OF e1(2)] call_adds_def im(2))
  have b: "list_all (\<lambda>p. addr it + 4 \<le> p \<and> p < addr it') (ptrs e2)" and s: "sorted_wrt (<) (ptrs e2)"
    and c: "list_start_cb it'" "list_end_cb it'"
    using e2(1) by (simp_all add: call_adds_def im(5))
  have b2: "list_all (\<lambda>p. addr it0 \<le> p \<and> p < addr it') (ptrs es)"
    using b by (auto simp: p list_all_iff Info.hyps(1))
  have "call_adds it0 it' es"
    unfolding call_adds_def using o nst s b2 c by (simp add: p)
  moreover have "\<forall>c. x = Some c \<longrightarrow> list_all (\<lambda>p. p < c) (ptrs es)"
    using e2(2) by (simp add: p)
  moreover have "addr it0 \<le> addr it'" using e2(3) unfolding im(5) by (simp add: Info.hyps(1))
  ultimately show ?case by blast
next
  case (Leaf it0 it tag it1)
  from close_levels_out [OF Leaf.prems(3)] obtain e0 where
    e0: "out it = out it0 @ e0" "ptrs e0 = []"
        "nest (list_level it0) e0 = Some (list_level it)" unfolding Leaf.hyps(1) by blast
  have cb: "list_start_cb it" "list_end_cb it" using Leaf.prems(2,3) by (simp_all add: Leaf.hyps(1))
  note ds = data_subchunk_out [OF Leaf.hyps(6)]
  from ds(1) obtain us where
    e1: "out it1 = out it @ us" "list_all is_underflow us" by blast
  have i: "it' = it1" "x = Some (addr it)" using Leaf.hyps(7) Leaf.prems(1) by auto
  have "call_adds it0 it' (e0 @ us)"
    using e0 e1 ds(2-4) cb
    by (simp add: call_adds_def i ptrs_append nest_append
          ptrs_underflows [OF e1(2)] nest_underflows [OF e1(2)])
  moreover have "ptrs (e0 @ us) = []"
    by (simp add: ptrs_append e0(2) ptrs_underflows [OF e1(2)])
  ultimately show ?case using data_subchunk_fields(2) [OF Leaf.hyps(6)]
    by (auto simp: i Leaf.hyps(1))
qed simp_all

text \<open>The whole loop.\<close>

lemma main_loop_adds:
  assumes "main_loop it = Inr it'" and "list_start_cb it" and "list_end_cb it"
  shows "\<exists>es. out it' = out it @ es \<and> nest (list_level it) es = Some 0
              \<and> sorted_wrt (<) (ptrs es) \<and> list_all (\<lambda>p. addr it \<le> p) (ptrs es)"
  using assms
proof (induction it rule: main_loop.induct)
  case (1 it)
  from "1.prems"(1) obtain x it1 where
    n: "riff_file_data_chunk_iterator_next it = Inr (x, it1)"
    by (subst (asm) main_loop.simps) (auto split: sum.splits)
  from next_adds [OF n "1.prems"(2,3)] obtain e1 where
    e1: "call_adds it it1 e1" "\<forall>c. x = Some c \<longrightarrow> list_all (\<lambda>p. p < c) (ptrs e1)"
        "addr it \<le> addr it1" by blast
  show ?case
  proof (cases x)
    case None
    have i: "it' = it1\<lparr>out := out it1 @ [EOF]\<rparr>"
      using "1.prems"(1) by (subst (asm) main_loop.simps) (simp add: n None)
    have z: "list_level it1 = 0"
      using n unfolding None by (rule next_None_state [THEN conjunct1])
    have "out it' = out it @ (e1 @ [EOF])" using e1(1) by (simp add: i call_adds_def)
    moreover have "nest (list_level it) (e1 @ [EOF]) = Some 0"
      using e1(1) z by (simp add: call_adds_def nest_append)
    moreover have "sorted_wrt (<) (ptrs (e1 @ [EOF]))"
      using e1(1) by (simp add: call_adds_def ptrs_append)
    moreover have "list_all (\<lambda>p. addr it \<le> p) (ptrs (e1 @ [EOF]))"
      using e1(1) by (auto simp: call_adds_def ptrs_append list_all_iff)
    ultimately show ?thesis by blast
  next
    case (Some c)
    define ev where "ev = CHUNK (riff_file_data_chunk_iterator_get_list_level it1) c
                    (subchunk_id (file_p it1) c) (subchunk_size (file_p it1) c)"
    define it2 where "it2 = it1\<lparr>out := out it1 @ [ev]\<rparr>"
    have m: "main_loop it2 = Inr it'"
      using "1.prems"(1) by (subst (asm) main_loop.simps) (simp add: n Some it2_def ev_def)
    have cb: "list_start_cb it2" "list_end_cb it2"
      using e1(1) by (simp_all add: it2_def call_adds_def)
    from "1.IH" [OF n [unfolded Some] refl refl m [unfolded it2_def ev_def] cb [unfolded it2_def ev_def]]
    obtain e2 where
      e2: "out it' = out it2 @ e2" "nest (list_level it2) e2 = Some 0"
          "sorted_wrt (<) (ptrs e2)" "list_all (\<lambda>p. addr it2 \<le> p) (ptrs e2)"
      unfolding it2_def ev_def by auto
    note r = next_result_Some [OF n [unfolded Some]]
    define es where "es = e1 @ ev # e2"
    have "out it' = out it @ es" using e1(1) e2(1) by (simp add: es_def it2_def call_adds_def)
    moreover have "nest (list_level it) es = Some 0"
      using e1(1) e2(2)
      by (simp add: es_def call_adds_def nest_append ev_def it2_def
            riff_file_data_chunk_iterator_get_list_level_def)
    moreover have p: "ptrs es = ptrs e1 @ c # ptrs e2" by (simp add: es_def ptrs_append ev_def)
    have "sorted_wrt (<) (ptrs es)"
      using e1(1,2) e2(3,4) r
      by (fastforce simp: p sorted_wrt_append call_adds_def list_all_iff Some it2_def)
    moreover have "list_all (\<lambda>p. addr it \<le> p) (ptrs es)"
      using e1(1) e2(4) r by (auto simp: p call_adds_def list_all_iff it2_def)
    ultimately show ?thesis by blast
  qed
qed

section \<open>The scenarios, evaluated\<close>

lemma scenario_C_bytes:
  "scenario_C = [82, 73, 70, 70, 28, 0, 0, 0, 87, 65, 86, 69, 76, 73, 83, 84, 16, 0, 0, 0,
                 73, 78, 70, 79, 73, 78, 65, 77, 4, 0, 0, 0, 114, 105, 102, 102]"
  by (simp add: scenario_C_def scenario_C_chunks_def riff_file_def sers_def cstr_def le32_def)

lemma peek_C:
  "peek file_C p n = (if p + n \<le> 36 then Some (take n (drop p scenario_C)) else None)"
  unfolding file_C_def using peek_file_of [of scenario_C 4096 p n]
  by (simp add: scenario_C_bytes)

lemma next_C_end:
  "riff_file_data_chunk_iterator_next (it_C 36 1 [0, 0] [])
     = Inr (None, it_C 36 0 [0, 0] [LIST_END 1])"
  by (simp add: it_C_def riff_file_data_chunk_iterator_next.simps close_levels.simps)

lemma next_C_first:
  "riff_file_data_chunk_iterator_next (it_C 12 0 [24, 0] [])
     = Inr (Some 24, it_C 36 1 [0, 0] [LIST_START 1 12 16 (cstr ''INFO'')])"
  unfolding it_C_def
  by (simp add: riff_file_data_chunk_iterator_next.simps close_levels.simps
        list_chunk_def list_enter_def RIFF_FILE_NESTED_LIST_MAX_LEVELS_def data_subchunk_def
        sub_all_lists_def sub_list_def peek_C scenario_C_bytes cstr_def rd_u32_def Let_def)

lemma main_loop_C:
  "main_loop (it_C 12 0 [24, 0] [])
     = Inr (it_C 36 0 [0, 0] [LIST_START 1 12 16 (cstr ''INFO''), CHUNK 1 24 (cstr ''INAM'') 4,
                              LIST_END 1, EOF])"
proof -
  define e where "e = [LIST_START 1 12 16 (cstr ''INFO''), CHUNK 1 24 (cstr ''INAM'') 4]"
  have i: "subchunk_id file_C 24 = cstr ''INAM''" and z: "subchunk_size file_C 24 = 4"
    unfolding file_C_def
    by (simp_all add: subchunk_id_file_of subchunk_size_file_of scenario_C_bytes cstr_def
          rd_u32_def)
  have 2: "riff_file_data_chunk_iterator_next (it_C 36 1 [0, 0] e)
             = Inr (None, it_C 36 0 [0, 0] (e @ [LIST_END 1]))"
    by (simp add: it_C_def riff_file_data_chunk_iterator_next.simps close_levels.simps)
  have "main_loop (it_C 12 0 [24, 0] []) = main_loop (it_C 36 1 [0, 0] e)"
    by (subst main_loop.simps, subst next_C_first)
       (simp add: riff_file_data_chunk_iterator_get_list_level_def it_C_def e_def i z)
  also have "\<dots> = Inr (it_C 36 0 [0, 0] (e @ [LIST_END 1, EOF]))"
    by (subst main_loop.simps, subst 2) (simp add: it_C_def)
  finally show ?thesis by (simp add: e_def)
qed

lemma big_head: "big_movi_head = [82, 73, 70, 70, 24, 0, 0, 128, 65, 86, 73, 32,
                                 76, 73, 83, 84, 0, 0, 0, 128, 109, 111, 118, 105]"
  by (simp add: big_movi_head_def cstr_def le32_def)

lemma big_tail: "big_movi_tail = [105, 100, 120, 49, 4, 0, 0, 0, 0, 0, 0, 0]"
  by (simp add: big_movi_tail_def cstr_def le32_def)

lemma peek_big:
  "peek big_movi_file 12 4 = Some (cstr ''LIST'')"
  "peek big_movi_file 16 4 = Some (le32 0x80000000)"
  "peek big_movi_file 16 8 = Some (le32 0x80000000 @ cstr ''movi'')"
  "peek big_movi_file 0x80000014 8 = Some (cstr ''idx1'' @ le32 4)"
  by (simp_all add: peek_def big_movi_file_def big_head big_tail cstr_def le32_def)

lemma rd_big: "rd_u32 (le32 0x80000000) = 0x80000000"
  by (simp add: rd_u32_def le32_def)

lemma length_big_payload [simp]: "length big_payload = 0x80000000"
  by (simp add: big_payload_def)

lemma big_leaf_bytes_eq:
  "big_leaf_bytes = big_leaf_head @ big_payload @ [116, 97, 105, 108, 0, 0, 0, 0]"
  by (simp add: big_leaf_bytes_def big_leaf_chunks_def riff_file_def cstr_def le32_def
        big_leaf_head_def)

lemma length_big_leaf_head: "length big_leaf_head = 32"
  by (simp add: big_leaf_head_def)

lemma length_big_leaf_bytes: "length big_leaf_bytes = 0x80000028"
  by (simp add: big_leaf_bytes_eq length_big_leaf_head)

lemma take_drop_append_left:
  "p + n \<le> length h \<Longrightarrow> take n (drop p (h @ r)) = take n (drop p h)"
  by simp

lemma take_drop_head:
  "p + n \<le> 32 \<Longrightarrow> take n (drop p big_leaf_bytes) = take n (drop p big_leaf_head)"
  unfolding big_leaf_bytes_eq by (rule take_drop_append_left) (simp add: length_big_leaf_head)

lemma peek_leaf:
  "peek big_leaf_file 12 4 = Some (cstr ''LIST'')"
  "peek big_leaf_file 16 4 = Some (le32 0x80000014)"
  "peek big_leaf_file 16 8 = Some (le32 0x80000014 @ cstr ''lst '')"
  "peek big_leaf_file 24 4 = Some (cstr ''big '')"
  "peek big_leaf_file 28 4 = Some (le32 0x80000000)"
  unfolding big_leaf_file_def
  by (simp_all add: peek_file_of length_big_leaf_bytes take_drop_head)
     (simp_all add: big_leaf_head_def cstr_def le32_def)

lemma rd_leaf:
  "rd_u32 (le32 0x80000000) = 0x80000000" "rd_u32 (le32 0x80000014) = 0x80000014"
  by (simp_all add: rd_u32_def le32_def)

lemma chunk_leaf:
  "subchunk_id big_leaf_file 24 = cstr ''big ''" "subchunk_size big_leaf_file 24 = 0x80000000"
  unfolding big_leaf_file_def
  by (simp_all add: subchunk_id_file_of subchunk_size_file_of length_big_leaf_bytes take_drop_head)
     (simp_all add: big_leaf_head_def cstr_def rd_u32_def)

lemma open_leaf:
  "fst (riff_file_open (env_of big_leaf_bytes 4096) (cstr ''AVI '') os_init) = Some big_leaf_file"
  unfolding big_leaf_file_def
  by (subst riff_file_open_ok)
     (simp_all add: length_big_leaf_bytes take_drop_head [of 0 4, simplified]
        take_drop_head [of 8 4, simplified], simp_all add: big_leaf_head_def cstr_def)

lemma new_leaf:
  "riff_file_data_chunk_iterator_new (Some big_leaf_file) True True [0, 0, 0, 0, 0, 0, 0, 0, 0]
     = Some (it_leaf 12 0 [0x8000001C, 0] [])"
  by (simp add: riff_file_data_chunk_iterator_new_def it_leaf_def)
     (simp add: big_leaf_file_def file_of_def length_big_leaf_bytes)

lemma next_leaf_first:
  "riff_file_data_chunk_iterator_next (it_leaf 12 0 [0x8000001C, 0] [])
     = Inr (Some 24, it_leaf 0x80000020 1 [0, 0]
              [LIST_START 1 12 0x80000014 (cstr ''lst ''),
               UNDERFLOW 0 0x80000008 0x80000000, UNDERFLOW 1 0x80000008 0x80000000])"
  unfolding it_leaf_def
  by (simp add: riff_file_data_chunk_iterator_next.simps close_levels.simps
        list_chunk_def list_enter_def RIFF_FILE_NESTED_LIST_MAX_LEVELS_def data_subchunk_def
        sub_all_lists_def sub_list_def peek_leaf rd_leaf Let_def cstr_def)

lemma main_loop_leaf:
  "main_loop (it_leaf 12 0 [0x8000001C, 0] [])
     = Inr (it_leaf 0x80000020 0 [0, 0]
              [LIST_START 1 12 0x80000014 (cstr ''lst ''),
               UNDERFLOW 0 0x80000008 0x80000000, UNDERFLOW 1 0x80000008 0x80000000,
               CHUNK 1 24 (cstr ''big '') 0x80000000, LIST_END 1, EOF])"
proof -
  define e where "e = [LIST_START 1 12 0x80000014 (cstr ''lst ''),
               UNDERFLOW 0 0x80000008 0x80000000, UNDERFLOW 1 0x80000008 0x80000000,
               CHUNK 1 24 (cstr ''big '') 0x80000000]"
  have 2: "riff_file_data_chunk_iterator_next (it_leaf 0x80000020 1 [0, 0] e)
             = Inr (None, it_leaf 0x80000020 0 [0, 0] (e @ [LIST_END 1]))"
    by (simp add: it_leaf_def riff_file_data_chunk_iterator_next.simps close_levels.simps)
  have "main_loop (it_leaf 12 0 [0x8000001C, 0] []) = main_loop (it_leaf 0x80000020 1 [0, 0] e)"
    by (subst main_loop.simps, subst next_leaf_first)
       (simp add: riff_file_data_chunk_iterator_get_list_level_def it_leaf_def e_def chunk_leaf)
  also have "\<dots> = Inr (it_leaf 0x80000020 0 [0, 0] (e @ [LIST_END 1, EOF]))"
    by (subst main_loop.simps, subst 2) (simp add: it_leaf_def)
  finally show ?thesis by (simp add: e_def)
qed

lemma run_leaf:
  "run_file (riff_file (le32 0x80000020) (cstr ''AVI '') big_leaf_chunks) (cstr ''AVI '')
     = Some (Inr [LIST_START 1 12 0x80000014 (cstr ''lst ''),
               UNDERFLOW 0 0x80000008 0x80000000, UNDERFLOW 1 0x80000008 0x80000000,
               CHUNK 1 24 (cstr ''big '') 0x80000000, LIST_END 1, EOF])"
  unfolding run_file_def big_leaf_bytes_def [symmetric] open_leaf new_leaf
  by (simp add: main_loop_leaf) (simp add: it_leaf_def)

lemma evss_leaf:
  "evss 0 12 big_leaf_chunks @ [EOF]
     = [LIST_START 1 12 0x80000014 (cstr ''lst ''), CHUNK 1 24 (cstr ''big '') 0x80000000,
        CHUNK 1 0x80000020 (cstr ''tail'') 0, LIST_END 1, EOF]"
  by (simp add: big_leaf_chunks_def)

lemma big_leaf_wf:
  "length (le32 0x80000020) = 4 \<and> length (cstr ''AVI '') = 4
   \<and> list_all (wf_chunk 0) big_leaf_chunks
   \<and> length (riff_file (le32 0x80000020) (cstr ''AVI '') big_leaf_chunks) = 0x80000028"
proof -
  have "list_all (wf_chunk 0) big_leaf_chunks"
    by (simp add: big_leaf_chunks_def RIFF_FILE_NESTED_LIST_MAX_LEVELS_def) (simp add: cstr_def)
  then show ?thesis
    using length_big_leaf_bytes unfolding big_leaf_bytes_def by simp
qed

lemma data_subchunk_leaf:
  "data_subchunk (it_leaf 24 1 [0x80000010, 0x80000010] [])
     = Inr (it_leaf 0x80000020 1 [0, 0]
              [UNDERFLOW 0 0x80000008 0x80000000, UNDERFLOW 1 0x80000008 0x80000000])"
  unfolding it_leaf_def
  by (simp add: data_subchunk_def sub_all_lists_def sub_list_def peek_leaf rd_leaf Let_def)

lemma sub_all_lists_leaf:
  "sub_all_lists (it_leaf 0x80000020 1 [0x80000008, 0x80000008] []) 0x80000000
     = it_leaf 0x80000020 1 [0, 0]
         [UNDERFLOW 0 0x80000008 0x80000000, UNDERFLOW 1 0x80000008 0x80000000]"
  unfolding it_leaf_def
  by (simp add: sub_all_lists_def sub_list_def)

lemma charge_amounts:
  "unat (0x80000000 :: uint32_t) = 2 ^ 31"
  "(0x80000000 :: size_t) \<le> 0x80000008"
  "charge 0x80000000 0x80000008 = 8"
  "(scast (0x80000000 :: int_t) :: size_t) = 0xFFFFFFFF80000000"
  by (simp_all add: charge_def)

lemma scenario_F_bytes:
  "scenario_F = [82, 73, 70, 70, 28, 0, 0, 0, 87, 65, 86, 69, 76, 73, 83, 84, 0, 0, 32, 0,
                 97, 98, 99, 100, 100, 97, 116, 97, 0, 0, 16, 0, 0, 0, 0, 0]"
  by (simp add: scenario_F_def cstr_def le32_def)

lemma peek_F:
  "peek (file_of scenario_F 4096) p n
     = (if p + n \<le> 36 then Some (take n (drop p scenario_F)) else None)"
  using peek_file_of [of scenario_F 4096 p n]
  by (simp add: scenario_F_bytes)

lemma new_F:
  "riff_file_data_chunk_iterator_new
     (fst (riff_file_open (env_of scenario_F 4096) (cstr ''WAVE'') os_init)) True True
     [0, 0, 0, 0, 0, 0, 0, 0, 0] = Some (it_F 12 0 [24, 0] [])"
proof -
  have b: "length scenario_F = 36" "take 4 scenario_F = cstr ''RIFF''"
    "take 4 (drop 8 scenario_F) = cstr ''WAVE''"
    by (simp_all add: scenario_F_bytes cstr_def)
  have op: "fst (riff_file_open (env_of scenario_F 4096) (cstr ''WAVE'') os_init)
              = Some (file_of scenario_F 4096)"
    by (subst riff_file_open_ok) (simp_all add: b)
  have sz: "size_f (file_of scenario_F 4096) = 36" by (simp add: file_of_def b(1))
  show ?thesis
    by (simp add: op riff_file_data_chunk_iterator_new_def sz it_F_def)
qed

lemma next_F_first:
  "riff_file_data_chunk_iterator_next (it_F 12 0 [24, 0] [])
     = Inr (Some 24, it_F 0x100020 1 [0, 0xFFFF4]
              [LIST_START 1 12 0x200000 (cstr ''abcd''), UNDERFLOW 0 4 0x100000])"
proof -
  define f where "f = file_of scenario_F 4096"
  have pk: "peek f 12 4 = Some (cstr ''LIST'')" "peek f 16 4 = Some (le32 0x200000)"
    "peek f 16 8 = Some (le32 0x200000 @ cstr ''abcd'')" "peek f 24 4 = Some (cstr ''data'')"
    "peek f 28 4 = Some (le32 0x100000)"
    unfolding f_def by (simp_all add: peek_F) (simp_all add: scenario_F_bytes cstr_def le32_def)
  have rd: "rd_u32 (le32 0x200000) = 0x200000" "rd_u32 (le32 0x100000) = 0x100000"
    by (simp_all add: rd_u32_def le32_def)
  show ?thesis
    unfolding it_F_def f_def [symmetric]
    by (simp add: riff_file_data_chunk_iterator_next.simps close_levels.simps
        list_chunk_def list_enter_def RIFF_FILE_NESTED_LIST_MAX_LEVELS_def data_subchunk_def
        sub_all_lists_def sub_list_def pk rd Let_def cstr_def)
qed

lemma next_F_second:
  "riff_file_data_chunk_iterator_next
     (it_F 0x100020 1 [0, 0xFFFF4]
        [LIST_START 1 12 0x200000 (cstr ''abcd''), UNDERFLOW 0 4 0x100000,
         CHUNK 1 24 (cstr ''data'') 0x100000])
     = Inl READ_OUTSIDE_MAPPING"
  unfolding it_F_def
  by (simp add: riff_file_data_chunk_iterator_next.simps close_levels.simps peek_F)

lemma run_F: "run_file scenario_F (cstr ''WAVE'') = Some (Inl READ_OUTSIDE_MAPPING)"
proof -
  have i: "subchunk_id (file_of scenario_F 4096) 24 = cstr ''data''"
    and z: "subchunk_size (file_of scenario_F 4096) 24 = 0x100000"
    by (simp_all add: subchunk_id_file_of subchunk_size_file_of scenario_F_bytes cstr_def
          rd_u32_def)
  have "main_loop (it_F 12 0 [24, 0] [])
          = main_loop (it_F 0x100020 1 [0, 0xFFFF4]
              [LIST_START 1 12 0x200000 (cstr ''abcd''), UNDERFLOW 0 4 0x100000,
               CHUNK 1 24 (cstr ''data'') 0x100000])"
    by (subst main_loop.simps, subst next_F_first)
       (simp add: riff_file_data_chunk_iterator_get_list_level_def it_F_def i z)
  also have "\<dots> = Inl READ_OUTSIDE_MAPPING"
    by (subst main_loop.simps, subst next_F_second) simp
  finally show ?thesis
    unfolding run_file_def new_F by simp
qed

section \<open>The claims\<close>

text \<open>
  C1. The minimal file of scenario A, for any size field in the master header and any
  payload bytes: a master header \<^verbatim>\<open>RIFF\<close>, size, \<^verbatim>\<open>WAVE\<close>, a leaf chunk \<^verbatim>\<open>fmt\<close> of size
  16 and a leaf chunk \<^verbatim>\<open>data\<close> of size 4. Opening it with the expected type \<^verbatim>\<open>WAVE\<close>
  succeeds, and the loop of calls yields exactly the chunk at offset 12 with id
  \<^verbatim>\<open>fmt\<close> and size 16, then the chunk at offset 36 with id \<^verbatim>\<open>data\<close> and size 4, then the
  end of the stream; no list-start and no list-end callback is called in between.
\<close>

theorem scenario_A_two_chunks:
  assumes "length sz = 4" and "length p1 = 16" and "length p2 = 4"
  shows "fst (riff_file_open (env_of (scenario_A sz p1 p2) 4096) (cstr ''WAVE'') os_init)
           = Some (file_of (scenario_A sz p1 p2) 4096)
         \<and> run_file (scenario_A sz p1 p2) (cstr ''WAVE'')
           = Some (Inr [CHUNK 0 12 (cstr ''fmt '') 16, CHUNK 0 36 (cstr ''data'') 4, EOF])"
proof -
  define bs where "bs = scenario_A sz p1 p2"
  define f where "f = file_of bs 4096"
  have len: "length bs = 48"
    using assms by (simp add: bs_def scenario_A_def cstr_def le32_def)
  have pk: "peek f p n = (if p + n \<le> 48 then Some (take n (drop p bs)) else None)" for p n
    unfolding f_def using peek_file_of [of bs 4096 p n] len by simp
  have sz: "size_f f = 48" by (simp add: f_def file_of_def len)
  have r: "take 4 (drop 12 bs) = cstr ''fmt ''" "take 4 (drop 16 bs) = le32 16"
     "take 4 (drop 36 bs) = cstr ''data''" "take 4 (drop 40 bs) = le32 4"
     "take 4 bs = cstr ''RIFF''" "take 4 (drop 8 bs) = cstr ''WAVE''"
    using assms by (simp_all add: bs_def scenario_A_def cstr_def le32_def)
  have op: "fst (riff_file_open (env_of bs 4096) (cstr ''WAVE'') os_init) = Some f"
    unfolding f_def by (subst riff_file_open_ok) (simp_all add: len r)
  have si: "subchunk_id f c = take 4 (drop c bs)" if "c + 4 \<le> 48" for c
    unfolding f_def using subchunk_id_file_of [of c bs 4096] that len by simp
  have ss: "subchunk_size f c = rd_u32 (take 4 (drop (c + 4) bs))" if "c + 8 \<le> 48" for c
    unfolding f_def using subchunk_size_file_of [of c bs 4096] that len by simp
  have "run_file bs (cstr ''WAVE'')
          = Some (Inr [CHUNK 0 12 (cstr ''fmt '') 16, CHUNK 0 36 (cstr ''data'') 4, EOF])"
    apply (simp add: run_file_def op riff_file_data_chunk_iterator_new_def sz)
    apply (simp add: main_loop.simps riff_file_data_chunk_iterator_next.simps
             close_levels.simps data_subchunk_def sub_all_lists_def sub_list_def pk r si ss
             riff_file_data_chunk_iterator_get_list_level_def Let_def cstr_def rd_u32_def
             le32_def)
    done
  with op show ?thesis by (simp add: bs_def f_def)
qed

theorem scenario_A_two_chunks_witness:
  "length (le32 40) = 4 \<and> length (le32 1 @ le32 2 @ le32 3 @ le32 4) = 16 \<and> length (le32 5) = 4
   \<and> run_file (scenario_A (le32 40) (le32 1 @ le32 2 @ le32 3 @ le32 4) (le32 5)) (cstr ''WAVE'')
       = Some (Inr [CHUNK 0 12 (cstr ''fmt '') 16, CHUNK 0 36 (cstr ''data'') 4, EOF])"
  using scenario_A_two_chunks [of "le32 40" "le32 1 @ le32 2 @ le32 3 @ le32 4" "le32 5"]
  by (simp add: le32_def)

text \<open>
  A charge of \<open>len\<close> against all active depths as the code performs it, for every
  iterator whose level lies in the array. The amount is \<^verbatim>\<open>(size_t)len\<close>, the value the
  code compares and subtracts; it is \<open>len\<close> itself for every \<open>len\<close> from 0 to \<^verbatim>\<open>INT_MAX\<close>. Every depth up to
  the current one that holds at least \<open>N\<close> loses exactly \<open>N\<close>; every such depth that
  holds less is set to 0 and its underflow is reported; deeper entries, the level and
  the cursor are untouched, and the reports are the only output. The charge itself
  cannot fail, and the traversal goes on: a call of next that stands on a leaf chunk
  whose eight header bytes are mapped returns that chunk, whatever size it declares,
  with the two charges applied.
\<close>

theorem sub_all_lists_charges:
  assumes "list_level it < length (list_size it)"
  shows "(\<forall>i \<le> list_level it.
            list_size (sub_all_lists it len) ! i = charge (scast len) (list_size it ! i)
            \<and> (scast len \<le> list_size it ! i \<longrightarrow>
                 unat (list_size (sub_all_lists it len) ! i)
                   = unat (list_size it ! i) - unat (scast len :: size_t))
            \<and> (list_size it ! i < scast len \<longrightarrow>
                 list_size (sub_all_lists it len) ! i = 0
                 \<and> UNDERFLOW i (list_size it ! i) len \<in> set (out (sub_all_lists it len))))
       \<and> (\<forall>i. list_level it < i \<longrightarrow> i < length (list_size it) \<longrightarrow>
                 list_size (sub_all_lists it len) ! i = list_size it ! i)
       \<and> out (sub_all_lists it len)
           = out it @ map (\<lambda>i. UNDERFLOW i (list_size it ! i) len)
                          (filter (\<lambda>i. list_size it ! i < scast len) [0..<Suc (list_level it)])
       \<and> list_level (sub_all_lists it len) = list_level it
       \<and> addr (sub_all_lists it len) = addr it
       \<and> (\<forall>hdr. \<not> (0 < list_level it \<and> list_size it ! list_level it = 0) \<longrightarrow>
                 \<not> (list_level it = 0 \<and> list_size it ! 0 = 0) \<longrightarrow>
                 peek (file_p it) (addr it) 8 = Some hdr \<longrightarrow>
                 take 4 hdr \<noteq> cstr ''LIST'' \<longrightarrow> take 4 hdr \<noteq> cstr ''INFO'' \<longrightarrow>
                 riff_file_data_chunk_iterator_next it
                   = Inr (Some (addr it),
                          sub_all_lists
                            ((sub_all_lists (it\<lparr>addr := addr it + 8\<rparr>) 8)
                               \<lparr>addr := addr it + 8 + unat (rd_u32 (drop 4 hdr))\<rparr>)
                            (rd_u32 (drop 4 hdr))))"
proof -
  let ?it' = "sub_all_lists it len"
  let ?n = "scast len :: size_t"
  note eff = sub_all_lists_effect [OF assms, of len]
  have a: "list_size ?it' ! i = charge ?n (list_size it ! i)" if "i \<le> list_level it" for i
    using that assms by (simp add: eff(1) nth_append)
  have b: "unat (charge ?n (list_size it ! i)) = unat (list_size it ! i) - unat ?n"
    if "?n \<le> list_size it ! i" for i
    using that by (simp add: charge_def unat_sub)
  have o: "out ?it' = out it @ map (\<lambda>i. UNDERFLOW i (list_size it ! i) len)
                          (filter (\<lambda>i. list_size it ! i < ?n) [0..<Suc (list_level it)])"
    unfolding eff(2) by (simp only: not_le)
  have c: "UNDERFLOW i (list_size it ! i) len \<in> set (out ?it')"
    if "i \<le> list_level it" "list_size it ! i < ?n" for i
  proof -
    have "i \<in> set (filter (\<lambda>i. list_size it ! i < ?n) [0..<Suc (list_level it)])"
      using that by (simp del: upt_Suc)
    then show ?thesis unfolding o by (simp only: set_append set_map) blast
  qed
  have d: "list_size ?it' ! i = list_size it ! i"
    if "list_level it < i" "i < length (list_size it)" for i
    using that assms by (simp add: eff(1) nth_append min_def)
  have z: "charge ?n (list_size it ! i) = 0" if "list_size it ! i < ?n" for i
    using that by (auto simp: charge_def)
  show ?thesis
    apply (intro conjI allI impI)
    apply (rule a, assumption)
    apply (simp only: a, erule b)
    apply (simp only: a, erule z)
    apply (erule c, assumption)
    apply (erule d, assumption)
    apply (rule o)
    apply simp
    apply simp
    apply (erule (4) next_leaf)
    done
qed


theorem sub_all_lists_charges_witness:
  "list_level it_W < length (list_size it_W)
   \<and> list_size (sub_all_lists it_W 8) ! 0 = 92
   \<and> list_size (sub_all_lists it_W 8) ! 2 = 0
   \<and> UNDERFLOW 2 5 8 \<in> set (out (sub_all_lists it_W 8))"
proof -
  have l: "list_level it_W < length (list_size it_W)"
    by (simp add: it_W_def)
  have v: "list_size it_W ! 0 = 100" "list_size it_W ! 2 = 5"
    by (simp_all add: it_W_def)
  have i: "0 \<le> list_level it_W" "2 \<le> list_level it_W"
    by (simp_all add: it_W_def)
  note t = sub_all_lists_charges [OF l, of 8, THEN conjunct1, rule_format]
  from t [OF i(1)] t [OF i(2)] l show ?thesis
    by (simp add: v charge_def)
qed

text \<open>
  C3. A charge of \<open>N = 2^31\<close> bytes, the size that the leaf chunk \<^verbatim>\<open>big\<close> of the file
  \<open>big_leaf_bytes\<close> declares: \<^verbatim>\<open>riff_file_data_chunk_iterator_next\<close> passes the \<^verbatim>\<open>uint32_t\<close>
  size to \<^verbatim>\<open>sub_all_lists\<close>, whose parameter is \<^verbatim>\<open>int len\<close>. Both active depths hold
  \<open>0x80000008\<close> bytes, which is at least \<open>N\<close>, so each should lose \<open>N\<close> and keep 8, with
  no report. In the code \<open>len\<close> is negative and \<^verbatim>\<open>(size_t)len\<close> is larger than every
  budget: both depths are set to 0 and an underflow is reported for each. Further,
  on scenario F, a file with an underflow: the first call returns the leaf chunk and
  reports the underflow of depth 0, the inner depth keeps \<open>0xFFFF4\<close> bytes, the cursor
  stands 1 MiB beyond the 36 bytes of the file, and the next call reads its tag there,
  outside the mapping of the file.
\<close>

theorem charge_of_2GiB_is_clamped:
  "unat (0x80000000 :: uint32_t) = 2 ^ 31
   \<and> (0x80000000 :: size_t) \<le> 0x80000008
   \<and> charge 0x80000000 0x80000008 = 8
   \<and> sub_all_lists (it_leaf 0x80000020 1 [0x80000008, 0x80000008] []) 0x80000000
       = it_leaf 0x80000020 1 [0, 0]
           [UNDERFLOW 0 0x80000008 0x80000000, UNDERFLOW 1 0x80000008 0x80000000]
   \<and> data_subchunk (it_leaf 24 1 [0x80000010, 0x80000010] [])
       = Inr (it_leaf 0x80000020 1 [0, 0]
                [UNDERFLOW 0 0x80000008 0x80000000, UNDERFLOW 1 0x80000008 0x80000000])
   \<and> riff_file_data_chunk_iterator_new
         (fst (riff_file_open (env_of scenario_F 4096) (cstr ''WAVE'') os_init)) True True
         [0, 0, 0, 0, 0, 0, 0, 0, 0] = Some (it_F 12 0 [24, 0] [])
   \<and> riff_file_data_chunk_iterator_next (it_F 12 0 [24, 0] [])
       = Inr (Some 24, it_F 0x100020 1 [0, 0xFFFF4]
                [LIST_START 1 12 0x200000 (cstr ''abcd''), UNDERFLOW 0 4 0x100000])
   \<and> riff_file_data_chunk_iterator_next
         (it_F 0x100020 1 [0, 0xFFFF4]
            [LIST_START 1 12 0x200000 (cstr ''abcd''), UNDERFLOW 0 4 0x100000,
             CHUNK 1 24 (cstr ''data'') 0x100000])
       = Inl READ_OUTSIDE_MAPPING
   \<and> run_file scenario_F (cstr ''WAVE'') = Some (Inl READ_OUTSIDE_MAPPING)"
  using charge_amounts(1-3) sub_all_lists_leaf data_subchunk_leaf new_F next_F_first
        next_F_second run_F
  by (intro conjI)

text \<open>
  C8. Once a call has returned the end of the stream, the iterator is at depth 0 with
  budget 0 there, and every later call returns the end of the stream again and leaves
  the iterator, its output included, exactly as it was: no cursor movement, no budget
  change, no callback.
\<close>

theorem end_of_stream_idempotent:
  assumes "riff_file_data_chunk_iterator_next it = Inr (None, it')"
  shows "list_level it' = 0 \<and> list_size it' ! 0 = 0
         \<and> riff_file_data_chunk_iterator_next it' = Inr (None, it')
         \<and> next_repeated n it' = Inr (None, it')"
proof -
  have e: "list_level it' = 0" "list_size it' ! 0 = 0"
    using next_None_state [OF assms] by auto
  have s: "riff_file_data_chunk_iterator_next it' = Inr (None, it')"
    using e by (rule next_at_end)
  have "next_repeated n it' = Inr (None, it')"
    by (induction n) (simp_all add: s)
  with e s show ?thesis by simp
qed

theorem end_of_stream_idempotent_witness:
  "riff_file_data_chunk_iterator_next (it_C 36 1 [0, 0] [])
     = Inr (None, it_C 36 0 [0, 0] [LIST_END 1])
   \<and> next_repeated 3 (it_C 36 0 [0, 0] [LIST_END 1])
     = Inr (None, it_C 36 0 [0, 0] [LIST_END 1])"
  using end_of_stream_idempotent [OF next_C_end, of 3] next_C_end by simp

text \<open>
  C10. A chunk returned by next is a leaf: the four id bytes at the returned pointer
  are neither \<^verbatim>\<open>LIST\<close> nor \<^verbatim>\<open>INFO\<close>.
\<close>

theorem returned_chunk_is_leaf:
  "riff_file_data_chunk_iterator_next it0 = Inr (Some c, it') \<Longrightarrow>
     subchunk_id (file_p it0) c \<noteq> cstr ''LIST'' \<and> subchunk_id (file_p it0) c \<noteq> cstr ''INFO''"
proof (induction it0 rule: next_induct)
  case (List it0 it it1)
  then show ?case using list_chunk_fields(1) [of it it1] by simp
next
  case (Info it0 it)
  then show ?case by (simp add: info_marker_def)
next
  case (Leaf it0 it tag it1)
  then show ?case by (auto simp: peek_def subchunk_id_def split: if_splits)
qed auto

theorem returned_chunk_is_leaf_witness:
  "riff_file_data_chunk_iterator_next (it_C 12 0 [24, 0] [])
     = Inr (Some 24, it_C 36 1 [0, 0] [LIST_START 1 12 16 (cstr ''INFO'')])
   \<and> subchunk_id (file_p (it_C 12 0 [24, 0] [])) 24 \<noteq> cstr ''LIST''
   \<and> subchunk_id (file_p (it_C 12 0 [24, 0] [])) 24 \<noteq> cstr ''INFO''"
  using returned_chunk_is_leaf [OF next_C_first] next_C_first by simp

text \<open>
  C6. The failure paths of \<^verbatim>\<open>riff_file_open\<close>, run on the file of scenario B with no
  resource held before the call. Opened with the type \<^verbatim>\<open>AVI\<close> the call returns \<^verbatim>\<open>NULL\<close>
  and the mapping of 48 bytes at the address that \<^verbatim>\<open>mmap\<close> returned is still
  established: the code unmaps address 0. When \<^verbatim>\<open>fstat\<close> fails the call returns
  \<^verbatim>\<open>NULL\<close> and the descriptor is still open. When \<^verbatim>\<open>mmap\<close> fails, the sibling path,
  nothing is left behind.
\<close>

theorem open_failure_leaks:
  "riff_file_open (env_of scenario_B 4096) (cstr ''AVI '') os_init
     = (None, os_init\<lparr>mappings := [(4096, 48)], stderr := [''no valid riff header'']\<rparr>)
   \<and> riff_file_open ((env_of scenario_B 4096)\<lparr>fstat_size := None\<rparr>) (cstr ''WAVE'') os_init
     = (None, os_init\<lparr>open_fds := 1, stderr := [''file stat failed'']\<rparr>)
   \<and> riff_file_open ((env_of scenario_B 4096)\<lparr>mmap_res := None\<rparr>) (cstr ''WAVE'') os_init
     = (None, os_init\<lparr>stderr := [''mmap file failed'']\<rparr>)"
proof -
  have b: "length scenario_B = 48" "take 4 scenario_B = cstr ''RIFF''"
    "take 4 (drop 8 scenario_B) = cstr ''WAVE''"
    by (simp_all add: scenario_B_def scenario_A_def cstr_def le32_def)
  have "riff_file_open (env_of scenario_B 4096) (cstr ''AVI '') os_init
     = (None, os_init\<lparr>mappings := [(4096, 48)], stderr := [''no valid riff header'']\<rparr>)"
    by (subst riff_file_open_env_of) (simp_all add: b, simp add: cstr_def)
  moreover
  have "riff_file_open ((env_of scenario_B 4096)\<lparr>fstat_size := None\<rparr>) (cstr ''WAVE'') os_init
     = (None, os_init\<lparr>open_fds := 1, stderr := [''file stat failed'']\<rparr>)"
    by (simp add: riff_file_open_def env_of_def os_init_def Let_def perror_def free_def)
  moreover
  have "riff_file_open ((env_of scenario_B 4096)\<lparr>mmap_res := None\<rparr>) (cstr ''WAVE'') os_init
     = (None, os_init\<lparr>stderr := [''mmap file failed'']\<rparr>)"
    by (simp add: riff_file_open_def env_of_def os_init_def Let_def perror_def free_def
          close_fd_def)
  ultimately show ?thesis by simp
qed

text \<open>
  C9, as the claim states it, fails: on the handle of scenario B the value returned by
  \<^verbatim>\<open>riff_file_close\<close> is the same whether \<^verbatim>\<open>munmap\<close> fails or succeeds.
\<close>

theorem close_result_does_not_distinguish:
  "fst (riff_file_close (file_of scenario_B 4096) False
          (os_init\<lparr>mappings := [(4096, 48)], heap_blocks := 1\<rparr>))
   = fst (riff_file_close (file_of scenario_B 4096) True
          (os_init\<lparr>mappings := [(4096, 48)], heap_blocks := 1\<rparr>))"
  by (simp add: riff_file_close_def)

text \<open>
  C9, amended. \<^verbatim>\<open>riff_file_close\<close> returns 0 in every case. The handle's block is
  freed in every case and no descriptor is touched. A failure of \<^verbatim>\<open>munmap\<close> is reported
  on the standard error stream only, and the mapping then stays; when \<^verbatim>\<open>munmap\<close>
  succeeds nothing is reported and the mapping of the handle is removed.
\<close>

theorem close_returns_zero:
  "fst (riff_file_close f unmap_ok os) = 0
   \<and> heap_blocks (snd (riff_file_close f unmap_ok os)) = heap_blocks os - 1
   \<and> open_fds (snd (riff_file_close f unmap_ok os)) = open_fds os
   \<and> stderr (snd (riff_file_close f unmap_ok os))
       = (if unmap_ok then stderr os else stderr os @ [''file munmap failed''])
   \<and> mappings (snd (riff_file_close f unmap_ok os))
       = (if unmap_ok then mappings (munmap (vaddr f) (size_f f) os) else mappings os)
   \<and> (vaddr f, size_f f) \<notin> set (mappings (munmap (vaddr f) (size_f f) os))"
  by (simp add: riff_file_close_def free_def perror_def munmap_def)

text \<open>
  Files shorter than \<open>2^31\<close> bytes. For every well-formed file of that length, with both
  callbacks registered, the loop of calls runs to the end of the stream and its output
  is exactly the depth-first walk \<open>evss\<close> of the chunks: a leaf gives its chunk line; a
  list gives its list start, then the walk of its sub-chunks, then its list end; a
  \<^verbatim>\<open>movi\<close> list gives its start and its end. So the start of a list comes before
  everything inside it and its end after the last chunk inside it and before the end
  of any enclosing list. The output obeys the nesting discipline from depth 0 back to
  depth 0, and the pointers of the chunks and lists in it increase strictly. Moreover,
  on any file and from any iterator with both callbacks registered: when the loop of
  calls reaches the end of the stream, what it has added to the output obeys the
  nesting discipline from the level of the iterator back to depth 0, and the pointers
  in it increase strictly from the cursor on.
\<close>

theorem traversal_order:
  "(wf_file sz fmt cs \<and> length (riff_file sz fmt cs) < 2 ^ 31 \<longrightarrow>
      run_file (riff_file sz fmt cs) fmt = Some (Inr (evss 0 12 cs @ [EOF]))
      \<and> nest 0 (evss 0 12 cs @ [EOF]) = Some 0
      \<and> sorted_wrt (<) (ptrs (evss 0 12 cs @ [EOF])))
   \<and> (list_start_cb it \<and> list_end_cb it \<and> main_loop it = Inr it' \<longrightarrow>
      (\<exists>es. out it' = out it @ es \<and> nest (list_level it) es = Some 0
            \<and> sorted_wrt (<) (ptrs es) \<and> list_all (\<lambda>p. addr it \<le> p) (ptrs es)))"
proof (intro conjI impI)
  assume "wf_file sz fmt cs \<and> length (riff_file sz fmt cs) < 2 ^ 31"
  then have w: "wf_file sz fmt cs" and b: "length (riff_file sz fmt cs) < 2 ^ 31"
    by simp_all
  from w have l: "list_all (wf_chunk 0) cs" by (simp add: wf_file_def)
  show "run_file (riff_file sz fmt cs) fmt = Some (Inr (evss 0 12 cs @ [EOF]))"
    using w b by (rule run_file_tree)
  show "nest 0 (evss 0 12 cs @ [EOF]) = Some 0"
    by (simp add: nest_append nest_evs)
  show "sorted_wrt (<) (ptrs (evss 0 12 cs @ [EOF]))"
    using ptrs_sorted(2) [OF l, of 12] by simp
next
  assume "list_start_cb it \<and> list_end_cb it \<and> main_loop it = Inr it'"
  then show "\<exists>es. out it' = out it @ es \<and> nest (list_level it) es = Some 0
            \<and> sorted_wrt (<) (ptrs es) \<and> list_all (\<lambda>p. addr it \<le> p) (ptrs es)"
    using main_loop_adds [of it it'] by simp
qed

theorem traversal_order_witness:
  "wf_file (le32 28) (cstr ''WAVE'') scenario_C_chunks
   \<and> length (riff_file (le32 28) (cstr ''WAVE'') scenario_C_chunks) < 2 ^ 31
   \<and> run_file (riff_file (le32 28) (cstr ''WAVE'') scenario_C_chunks) (cstr ''WAVE'')
       = Some (Inr [LIST_START 1 12 16 (cstr ''INFO''), CHUNK 1 24 (cstr ''INAM'') 4,
                    LIST_END 1, EOF])
   \<and> main_loop (it_C 12 0 [24, 0] [])
       = Inr (it_C 36 0 [0, 0] [LIST_START 1 12 16 (cstr ''INFO''),
                                CHUNK 1 24 (cstr ''INAM'') 4, LIST_END 1, EOF])
   \<and> nest 0 [LIST_START 1 12 16 (cstr ''INFO''), CHUNK 1 24 (cstr ''INAM'') 4,
              LIST_END 1, EOF] = Some 0
   \<and> sorted_wrt (<) (ptrs [LIST_START 1 12 16 (cstr ''INFO''),
                           CHUNK 1 24 (cstr ''INAM'') 4, LIST_END 1, EOF])"
proof -
  define it' where "it' = it_C 36 0 [0, 0] [LIST_START 1 12 16 (cstr ''INFO''),
                                CHUNK 1 24 (cstr ''INAM'') 4, LIST_END 1, EOF]"
  have w: "wf_file (le32 28) (cstr ''WAVE'') scenario_C_chunks"
    by (simp add: wf_file_def scenario_C_chunks_def riff_file_def sers_def cstr_def
          RIFF_FILE_NESTED_LIST_MAX_LEVELS_def)
  have l: "length (riff_file (le32 28) (cstr ''WAVE'') scenario_C_chunks) < 2 ^ 31"
    using scenario_C_bytes by (simp add: scenario_C_def)
  have m: "main_loop (it_C 12 0 [24, 0] []) = Inr it'"
    unfolding it'_def by (rule main_loop_C)
  have c: "list_start_cb (it_C 12 0 [24, 0] [])" "list_end_cb (it_C 12 0 [24, 0] [])"
    by (simp_all add: it_C_def)
  note t = traversal_order [of "le32 28" "cstr ''WAVE''" scenario_C_chunks
                               "it_C 12 0 [24, 0] []" it']
  from t w l have 1:
    "run_file (riff_file (le32 28) (cstr ''WAVE'') scenario_C_chunks) (cstr ''WAVE'')
       = Some (Inr [LIST_START 1 12 16 (cstr ''INFO''), CHUNK 1 24 (cstr ''INAM'') 4,
                    LIST_END 1, EOF])"
    by (simp add: scenario_C_chunks_def sers_def)
  from t m c obtain es where
    es: "out it' = out (it_C 12 0 [24, 0] []) @ es"
        "nest (list_level (it_C 12 0 [24, 0] [])) es = Some 0" "sorted_wrt (<) (ptrs es)"
    by blast
  from es(1) have e: "es = [LIST_START 1 12 16 (cstr ''INFO''),
                           CHUNK 1 24 (cstr ''INAM'') 4, LIST_END 1, EOF]"
    by (simp add: it'_def it_C_def)
  from es(2) have 2: "nest 0 es = Some 0" by (simp add: it_C_def)
  show ?thesis using w l 1 m [unfolded it'_def] 2 es(3) unfolding e by blast
qed

text \<open>
  C2. The traversal of the file \<open>big_leaf_bytes\<close>, a well-formed file of \<open>2^31 + 40\<close>
  bytes. In file order its walk is: the start of the list, the chunk \<^verbatim>\<open>big\<close> at offset
  24, the chunk \<^verbatim>\<open>tail\<close> at offset \<open>0x80000020\<close>, the end of the list, the end of the
  file. The code starts the list and returns \<^verbatim>\<open>big\<close>; but the size \<open>0x80000000\<close> of
  \<^verbatim>\<open>big\<close> reaches \<^verbatim>\<open>sub_all_lists\<close> through its parameter \<^verbatim>\<open>int len\<close>, where it is
  negative, and both budgets, which hold \<open>0x80000008\<close> bytes and should keep 8, are set
  to 0 with an underflow report. The next call then ends the list and returns the end
  of the stream: the list end is fired directly after \<^verbatim>\<open>big\<close>, and \<^verbatim>\<open>tail\<close>, the last
  chunk inside the list, is never visited.
\<close>

theorem list_closed_before_last_chunk:
  "wf_file (le32 0x80000020) (cstr ''AVI '') big_leaf_chunks
   \<and> length (riff_file (le32 0x80000020) (cstr ''AVI '') big_leaf_chunks) = 2 ^ 31 + 40
   \<and> run_file (riff_file (le32 0x80000020) (cstr ''AVI '') big_leaf_chunks) (cstr ''AVI '')
       = Some (Inr [LIST_START 1 12 0x80000014 (cstr ''lst ''),
                    UNDERFLOW 0 0x80000008 0x80000000, UNDERFLOW 1 0x80000008 0x80000000,
                    CHUNK 1 24 (cstr ''big '') 0x80000000, LIST_END 1, EOF])
   \<and> evss 0 12 big_leaf_chunks @ [EOF]
       = [LIST_START 1 12 0x80000014 (cstr ''lst ''), CHUNK 1 24 (cstr ''big '') 0x80000000,
          CHUNK 1 0x80000020 (cstr ''tail'') 0, LIST_END 1, EOF]"
proof -
  have w: "wf_file (le32 0x80000020) (cstr ''AVI '') big_leaf_chunks"
    using big_leaf_wf by (simp add: wf_file_def)
  have l: "length (riff_file (le32 0x80000020) (cstr ''AVI '') big_leaf_chunks) = 2 ^ 31 + 40"
    using big_leaf_wf by simp
  from w l run_leaf evss_leaf show ?thesis by (intro conjI)
qed

text \<open>
  C7. A file whose payload is eleven lists nested in one another, for any size field
  and format tag: the loop of calls ends in the failed assertion on the nesting
  level. The assertion stands before the store into the array of budgets, so no entry
  beyond the tenth is written; the failure is a result of its own, apart from the
  underflow reports, which are lines of output.
\<close>

theorem eleven_nested_lists_abort:
  assumes "length sz = 4" and "length fmt = 4"
  shows "run_file (riff_file sz fmt (deep 11)) fmt = Some (Inl ASSERT_LIST_LEVEL)"
proof -
  have l: "length (sers (deep n)) = 12 * n" for n
    by (induction n) (simp_all add: sers_def)
  have b: "length (riff_file sz fmt (deep 11)) < 2 ^ 31"
    using assms by (simp add: riff_file_def l)
  note n = pos_new [OF assms b, of 4096]
  have e: "deep 11 = deep (Suc 10)" by (simp add: eval_nat_numeral)
  from deep_assert [OF n(2) [unfolded e]] show ?thesis
    unfolding run_file_def n(1) e [symmetric] by simp
qed


theorem eleven_nested_lists_abort_witness:
  "length (le32 136) = 4 \<and> length (cstr ''AVI '') = 4
   \<and> run_file (riff_file (le32 136) (cstr ''AVI '') (deep 11)) (cstr ''AVI '')
       = Some (Inl ASSERT_LIST_LEVEL)"
  using eleven_nested_lists_abort [of "le32 136" "cstr ''AVI ''"] by simp





text \<open>
  C4. The traversal of the file \<open>big_movi_file\<close>. The cursor goes past the whole
  \<^verbatim>\<open>movi\<close> list, to the \<^verbatim>\<open>idx1\<close> chunk at offset \<open>0x80000014\<close>, and nothing inside the list
  is produced. But the declared size \<open>0x80000000\<close> reaches \<^verbatim>\<open>sub_all_lists\<close> through its
  parameter \<^verbatim>\<open>int len\<close>, where it is negative, and \<^verbatim>\<open>(size_t)len\<close> is larger than every
  budget: depth 0, which holds \<open>0x8000000C\<close> bytes and after a charge of \<open>0x80000000\<close>
  would hold 12, is set to 0 with an underflow report, as is the new depth. The next
  call then returns the end of the stream, and the \<^verbatim>\<open>idx1\<close> chunk that follows the list
  in the mapping is never returned.
\<close>

theorem big_movi_list_ends_traversal:
  "riff_file_data_chunk_iterator_new (Some big_movi_file) True True [0, 0, 0, 0, 0, 0, 0, 0, 0]
     = Some it_big
   \<and> main_loop it_big
       = Inr (it_big\<lparr>addr := 0x80000014,
                     list_size := [0, 0, 0, 0, 0, 0, 0, 0, 0, 0],
                     out := [UNDERFLOW 0 0x8000000C 0x80000000, UNDERFLOW 1 0x80000000 0x80000000,
                             LIST_START 1 12 0x80000000 (cstr ''movi''), LIST_END 1, EOF]\<rparr>)
   \<and> peek big_movi_file 0x80000014 8 = Some (cstr ''idx1'' @ le32 4)
   \<and> charge 0x80000000 (charge 8 0x80000014) = 12"
proof -
  have n: "riff_file_data_chunk_iterator_new (Some big_movi_file) True True
             [0, 0, 0, 0, 0, 0, 0, 0, 0] = Some it_big"
    by (simp add: riff_file_data_chunk_iterator_new_def it_big_def) (simp add: big_movi_file_def)
  have m: "main_loop it_big
       = Inr (it_big\<lparr>addr := 0x80000014,
                     list_size := [0, 0, 0, 0, 0, 0, 0, 0, 0, 0],
                     out := [UNDERFLOW 0 0x8000000C 0x80000000, UNDERFLOW 1 0x80000000 0x80000000,
                             LIST_START 1 12 0x80000000 (cstr ''movi''), LIST_END 1, EOF]\<rparr>)"
    unfolding it_big_def
    by (simp add: main_loop.simps riff_file_data_chunk_iterator_next.simps close_levels.simps
          list_chunk_def list_enter_def RIFF_FILE_NESTED_LIST_MAX_LEVELS_def
          sub_all_lists_def sub_list_def peek_big rd_big Let_def)
  have c: "charge 0x80000000 (charge 8 0x80000014) = 12"
    by (simp add: charge_def)
  from n m c peek_big(4) show ?thesis by simp
qed


end
